theory Spec2Isabelle
  imports
    Main
    "HOL-Library.Char_ord"
    "HOL-Library.List_Lexorder"
    "HOL-Library.Product_Lexorder"
    "HOL-Library.AList"
begin

section \<open>Strings and characters\<close>

text \<open>
  A JavaScript string is a sequence of UTF-16 code units. The model uses \<^typ>\<open>string\<close>,
  a list of 8-bit characters read as the code units \<open>0x00\<close> to \<open>0xFF\<close> (Latin-1). On
  that range the character predicates below are the ones of ECMAScript: \<open>\s\<close> is
  TAB, LF, VT, FF, CR, SPACE and NBSP, and a line terminator is LF or CR.
\<close>

definition isWhiteSpace :: "char \<Rightarrow> bool" where
  "isWhiteSpace c =
     (c = CHR 0x09 \<or> c = CHR 0x0A \<or> c = CHR 0x0B \<or> c = CHR 0x0C \<or> c = CHR 0x0D \<or>
      c = CHR 0x20 \<or> c = CHR 0xA0)"

definition isLineTerminator :: "char \<Rightarrow> bool" where
  "isLineTerminator c = (c = CHR 0x0A \<or> c = CHR 0x0D)"

text \<open>
  \<open>Canonicalize\<close> of the \<open>i\<close> flag, as the code unit of the upper-cased character: the
  letters \<open>a\<close> to \<open>z\<close> and \<open>0xE0\<close> to \<open>0xFE\<close> (without the division sign \<open>0xF7\<close>) move
  down by 32, \<open>0xFF\<close> and \<open>0xB5\<close> have their upper case outside Latin-1, and every other
  character is its own canonical form.
\<close>

definition canonicalize :: "char \<Rightarrow> nat" where
  "canonicalize c =
     (let n = of_char c in
      if (97 \<le> n \<and> n \<le> 122) \<or> (224 \<le> n \<and> n \<le> 254 \<and> n \<noteq> 247) then n - 32
      else if n = 255 then 376
      else if n = 181 then 924
      else n)"

text \<open>
  \<open>String.prototype.toLowerCase\<close>, as the code units of the lower-cased string: the
  letters \<open>A\<close> to \<open>Z\<close> and \<open>0xC0\<close> to \<open>0xDE\<close> (without the multiplication sign \<open>0xD7\<close>)
  move up by 32.
\<close>

definition toLowerCaseChar :: "char \<Rightarrow> nat" where
  "toLowerCaseChar c =
     (let n = of_char c in
      if (65 \<le> n \<and> n \<le> 90) \<or> (192 \<le> n \<and> n \<le> 222 \<and> n \<noteq> 215) then n + 32 else n)"

definition toLowerCase :: "string \<Rightarrow> nat list" where
  "toLowerCase s = map toLowerCaseChar s"

text \<open>\<open>_.trim(s)\<close> of lodash: the string without its leading and trailing whitespace.\<close>

definition trimStart :: "string \<Rightarrow> string" where
  "trimStart s = dropWhile isWhiteSpace s"

definition trimEnd :: "string \<Rightarrow> string" where
  "trimEnd s = rev (dropWhile isWhiteSpace (rev s))"

definition trim :: "string \<Rightarrow> string" where
  "trim s = trimStart (trimEnd s)"

section \<open>Regular expressions\<close>

text \<open>
  \<open>refPattern\<close> and the rename pattern of \<open>replaceRefs\<close> are modelled by a
  backtracking matcher over the fragment of the regular-expression syntax they use:
  literal characters, the classes \<open>\s\<close>, \<open>.\<close> and \<open>[^\[\]]\<close> under the quantifiers
  \<open>*\<close>, \<open>*?\<close> and \<open>+?\<close>, and capture groups, plain or under \<open>?\<close>. Both carry the
  \<open>i\<close> flag: a literal matches a character with the same canonical form. The other
  regular expressions of the source (the line separator, \<open>markdownExtRegex\<close> and the
  class of \<open>escapeForRegExp\<close>) are modelled by functions on strings where they are used.
\<close>

datatype cclass = Whitespace | AnyChar | NoBracket

fun inClass :: "cclass \<Rightarrow> char \<Rightarrow> bool" where
  "inClass Whitespace c = isWhiteSpace c"
| "inClass AnyChar c = (\<not> isLineTerminator c)"
| "inClass NoBracket c = (c \<noteq> CHR ''['' \<and> c \<noteq> CHR '']'')"

datatype atom = Lit char | Star cclass | StarLazy cclass | PlusLazy cclass

datatype piece = A atom | Group "atom list" | OptGroup "atom list"

type_synonym regex = "piece list"

text \<open>
  A matcher returns every way its pattern matches a prefix of the text, as pairs of
  the matched prefix and the remaining text, in the order in which a backtracking
  matcher tries them: the head of the list is the match the engine reports.
  A greedy star tries the longest run first, a lazy one the shortest.
\<close>

fun starGreedy :: "(char \<Rightarrow> bool) \<Rightarrow> string \<Rightarrow> (string \<times> string) list" where
  "starGreedy P [] = [([], [])]"
| "starGreedy P (c # cs) =
     (if P c then map (\<lambda>(m, r). (c # m, r)) (starGreedy P cs) else []) @ [([], c # cs)]"

fun starLazy :: "(char \<Rightarrow> bool) \<Rightarrow> string \<Rightarrow> (string \<times> string) list" where
  "starLazy P [] = [([], [])]"
| "starLazy P (c # cs) =
     ([], c # cs) # (if P c then map (\<lambda>(m, r). (c # m, r)) (starLazy P cs) else [])"

fun matchAtom :: "atom \<Rightarrow> string \<Rightarrow> (string \<times> string) list" where
  "matchAtom (Lit c) [] = []"
| "matchAtom (Lit c) (d # ds) = (if canonicalize c = canonicalize d then [([d], ds)] else [])"
| "matchAtom (Star cl) s = starGreedy (inClass cl) s"
| "matchAtom (StarLazy cl) s = starLazy (inClass cl) s"
| "matchAtom (PlusLazy cl) [] = []"
| "matchAtom (PlusLazy cl) (d # ds) =
     (if inClass cl d then map (\<lambda>(m, r). (d # m, r)) (starLazy (inClass cl) ds) else [])"

fun matchAtoms :: "atom list \<Rightarrow> string \<Rightarrow> (string \<times> string) list" where
  "matchAtoms [] s = [([], s)]"
| "matchAtoms (a # as) s =
     concat (map (\<lambda>(m1, r1). map (\<lambda>(m2, r2). (m1 @ m2, r2)) (matchAtoms as r1)) (matchAtom a s))"

text \<open>
  A match of a whole pattern: the matched text, the captures of its groups from left
  to right (\<open>None\<close> for a group that did not take part, JavaScript's \<open>undefined\<close>) and
  the remaining text. An optional group is tried first with the group, then without;
  as in ECMAScript's \<open>RepeatMatcher\<close>, an iteration that matches the empty string is
  not considered.
\<close>

type_synonym rmatch = "string \<times> string option list \<times> string"

fun matchPieces :: "piece list \<Rightarrow> string \<Rightarrow> rmatch list" where
  "matchPieces [] s = [([], [], s)]"
| "matchPieces (A a # ps) s =
     concat (map (\<lambda>(m1, r1). map (\<lambda>(m2, caps, r2). (m1 @ m2, caps, r2)) (matchPieces ps r1))
       (matchAtom a s))"
| "matchPieces (Group as # ps) s =
     concat (map (\<lambda>(m1, r1).
         map (\<lambda>(m2, caps, r2). (m1 @ m2, Some m1 # caps, r2)) (matchPieces ps r1))
       (matchAtoms as s))"
| "matchPieces (OptGroup as # ps) s =
     concat (map (\<lambda>(m1, r1).
         map (\<lambda>(m2, caps, r2). (m1 @ m2, Some m1 # caps, r2)) (matchPieces ps r1))
       (filter (\<lambda>(m1, r1). m1 \<noteq> []) (matchAtoms as s)))
     @ map (\<lambda>(m2, caps, r2). (m2, None # caps, r2)) (matchPieces ps s)"

text \<open>The match the engine reports when it tries the pattern at the start of the text.\<close>

definition matchHere :: "regex \<Rightarrow> string \<Rightarrow> rmatch option" where
  "matchHere re s = (case matchPieces re s of [] \<Rightarrow> None | x # _ \<Rightarrow> Some x)"

text \<open>Capture \<open>k\<close> of a match, \<open>match[k]\<close> for \<open>k\<close> from \<open>1\<close>.\<close>

definition group :: "nat \<Rightarrow> string option list \<Rightarrow> string option" where
  "group k caps = (if 1 \<le> k \<and> k \<le> length caps then caps ! (k - 1) else None)"

text \<open>
  \<open>RegExp.prototype.exec\<close> of a fresh regular expression: the leftmost position where
  the pattern matches, as the text before the match and the match.
\<close>

fun regexExec :: "regex \<Rightarrow> string \<Rightarrow> (string \<times> rmatch) option" where
  "regexExec re [] = map_option (Pair []) (matchHere re [])"
| "regexExec re (c # cs) =
     (case matchHere re (c # cs) of
        Some x \<Rightarrow> Some ([], x)
      | None \<Rightarrow> map_option (\<lambda>(pre, x). (c # pre, x)) (regexExec re cs))"

text \<open>
  \<open>String.prototype.replace\<close> with a global regular expression and a replacer function
  \<open>f\<close> of the match and its captures. The first argument counts the characters still
  covered by the previous match (the distance to \<open>lastIndex\<close>); at \<open>0\<close> the pattern is
  tried at the current position. After an empty match the engine copies one character
  and moves on.
\<close>

fun replaceFrom :: "regex \<Rightarrow> (string \<Rightarrow> string option list \<Rightarrow> string) \<Rightarrow> nat \<Rightarrow> string \<Rightarrow> string" where
  "replaceFrom re f (Suc k) [] = []"
| "replaceFrom re f (Suc k) (c # cs) = replaceFrom re f k cs"
| "replaceFrom re f 0 [] =
     (case matchHere re [] of None \<Rightarrow> [] | Some (m, caps, r) \<Rightarrow> f m caps)"
| "replaceFrom re f 0 (c # cs) =
     (case matchHere re (c # cs) of
        None \<Rightarrow> c # replaceFrom re f 0 cs
      | Some (m, caps, r) \<Rightarrow>
          f m caps @ (if m = [] then c # replaceFrom re f 0 cs
                      else replaceFrom re f (length m - 1) cs))"

definition replaceAll :: "regex \<Rightarrow> (string \<Rightarrow> string option list \<Rightarrow> string) \<Rightarrow> string \<Rightarrow> string" where
  "replaceAll re f s = replaceFrom re f 0 s"

text \<open>
  \<open>matchAll\<close> of the source: \<open>pattern.exec(text)\<close> in a loop until it returns null,
  on a global pattern whose \<open>lastIndex\<close> starts at \<open>0\<close>. \<open>exec\<close> leaves \<open>lastIndex\<close>
  at the end of the match, so after an empty match the loop finds the same match again
  and never ends: that is the value \<open>None\<close>.
\<close>

fun matchAllFrom :: "regex \<Rightarrow> nat \<Rightarrow> string \<Rightarrow> (string \<times> string option list) list option" where
  "matchAllFrom re (Suc k) [] = Some []"
| "matchAllFrom re (Suc k) (c # cs) = matchAllFrom re k cs"
| "matchAllFrom re 0 [] = (case matchHere re [] of None \<Rightarrow> Some [] | Some x \<Rightarrow> None)"
| "matchAllFrom re 0 (c # cs) =
     (case matchHere re (c # cs) of
        None \<Rightarrow> matchAllFrom re 0 cs
      | Some (m, caps, r) \<Rightarrow>
          if m = [] then None
          else map_option (\<lambda>ms. (m, caps) # ms) (matchAllFrom re (length m - 1) cs))"

definition matchAll :: "regex \<Rightarrow> string \<Rightarrow> (string \<times> string option list) list option" where
  "matchAll pattern text = matchAllFrom pattern 0 text"

section \<open>Reference utilities\<close>

text \<open>
  \<open>escapeForRegExp\<close> puts a backslash before each of the characters
  \<open>. * + ? ^ $ { } ( ) | [ ]\<close> and the backslash. \<open>literalAtoms\<close> reads such a pattern text back the way
  the \<open>RegExp\<close> constructor does: a backslash followed by a syntax character, and any
  other character that is not a syntax character, stand for that character; anything
  else is not a plain literal (\<open>None\<close>).
\<close>

definition syntaxCharacter :: "char \<Rightarrow> bool" where
  "syntaxCharacter c = (c \<in> set (''.*+?^${}()|[]'' @ [CHR 0x5C]))"

fun escapeForRegExp :: "string \<Rightarrow> string" where
  "escapeForRegExp [] = []"
| "escapeForRegExp (c # cs) =
     (if syntaxCharacter c then CHR 0x5C # c # escapeForRegExp cs else c # escapeForRegExp cs)"

fun literalAtoms :: "string \<Rightarrow> atom list option" where
  "literalAtoms [] = Some []"
| "literalAtoms [c] = (if syntaxCharacter c then None else Some [Lit c])"
| "literalAtoms (c # d # cs) =
     (if c = CHR 0x5C then (if syntaxCharacter d then map_option (Cons (Lit d)) (literalAtoms cs) else None)
      else if syntaxCharacter c then None
      else map_option (Cons (Lit c)) (literalAtoms (d # cs)))"

text \<open>\<open>refPattern\<close>: \<open>(\[\[)([^\[\]]+?)(\]\])\<close>.\<close>

definition refPattern :: regex where
  "refPattern = [Group [Lit CHR ''['', Lit CHR ''[''], Group [PlusLazy NoBracket],
                 Group [Lit CHR '']'', Lit CHR '']'']]"

record RefT =
  ref :: string
  label :: string

text \<open>\<open>indexOf("|")\<close> and the two slices of \<open>parseRef\<close>: the text before and after the
  first divider.\<close>

definition parseRef :: "string \<Rightarrow> RefT" where
  "parseRef rawRef =
     (if CHR ''|'' \<notin> set rawRef then \<lparr>ref = trim rawRef, label = trim rawRef\<rparr>
      else \<lparr>ref = trim (tl (dropWhile (\<lambda>c. c \<noteq> CHR ''|'') rawRef)),
            label = trim (takeWhile (\<lambda>c. c \<noteq> CHR ''|'') rawRef)\<rparr>)"

section \<open>The rewrite engine\<close>

record rename =
  old :: string
  new :: string

text \<open>
  The pattern of \<open>replaceRefs\<close> for one rename,
  \<open>\[\[\s*?(.*\|)?\s*${oldRef}\s*\]\]\<close>, where \<open>oldRef\<close> is \<open>escapeForRegExp(ref.old)\<close>
  and so matches the characters of \<open>ref.old\<close> literally (lemma
  \<open>literalAtoms_escapeForRegExp\<close> below).
\<close>

definition renamePattern :: "string \<Rightarrow> regex" where
  "renamePattern oldRef =
     [A (Lit CHR ''[''), A (Lit CHR ''[''), A (StarLazy Whitespace),
      OptGroup [Star AnyChar, Lit CHR ''|''], A (Star Whitespace)]
     @ map (\<lambda>c. A (Lit c)) oldRef
     @ [A (Star Whitespace), A (Lit CHR '']''), A (Lit CHR '']'')]"

text \<open>
  The replacer of \<open>replaceRefs\<close>: the template \<open>[[${_.trim($1) || ""}${ref.new}]]\<close>,
  where \<open>_.trim(undefined)\<close> is the empty string.
\<close>

definition replacer :: "string \<Rightarrow> string \<Rightarrow> string option list \<Rightarrow> string" where
  "replacer newRef m caps =
     ''[['' @ (case group 1 caps of Some g \<Rightarrow> trim g | None \<Rightarrow> []) @ newRef @ '']]''"

text \<open>
  One step of the \<open>reduce\<close> of \<open>replaceRefs\<close>. The accumulator is the pair
  \<open>(updatedOnce, nextContent)\<close>. Both the test and the replacement read \<open>content\<close>,
  the argument of \<open>replaceRefs\<close>, as the source does: the \<open>nextContent\<close> of the
  accumulator is only passed on when the pattern does not match.
  The hooks \<open>onMatch\<close> and \<open>onReplace\<close> do not contribute to the returned value and are
  left out.
\<close>

definition replaceRefsStep :: "string \<Rightarrow> bool \<times> string \<Rightarrow> rename \<Rightarrow> bool \<times> string" where
  "replaceRefsStep content acc r =
     (if regexExec (renamePattern (old r)) content \<noteq> None
      then (True, replaceAll (renamePattern (old r)) (replacer (new r)) content)
      else acc)"

text \<open>\<open>replaceRefs\<close>: \<open>None\<close> is the \<open>null\<close> of the source.\<close>

definition replaceRefs :: "rename list \<Rightarrow> string \<Rightarrow> string option" where
  "replaceRefs refs content =
     (case foldl (replaceRefsStep content) (False, content) refs of
        (updatedOnce, nextContent) \<Rightarrow> if updatedOnce then Some nextContent else None)"

section \<open>Paths\<close>

text \<open>
  \<open>path.basename\<close> and \<open>path.parse\<close> of Node.js for POSIX paths. The base name is the
  last segment of the path, trailing slashes apart. The extension starts at the last
  dot of the base name, unless the base name has no dot, starts with its only
  candidate dot, or is \<open>..\<close>; the name is the base name without the extension.
\<close>

definition basename :: "string \<Rightarrow> string" where
  "basename p =
     rev (takeWhile (\<lambda>c. c \<noteq> CHR ''/'') (dropWhile (\<lambda>c. c = CHR ''/'') (rev p)))"

definition hasExt :: "string \<Rightarrow> bool" where
  "hasExt b = (CHR ''.'' \<in> set b \<and> takeWhile (\<lambda>c. c \<noteq> CHR ''.'') (rev b) \<noteq> butlast (rev b)
     \<and> b \<noteq> ''..'')"

definition parseExt :: "string \<Rightarrow> string" where
  "parseExt p =
     (let b = basename p in
      if hasExt b then CHR ''.'' # rev (takeWhile (\<lambda>c. c \<noteq> CHR ''.'') (rev b)) else [])"

definition parseName :: "string \<Rightarrow> string" where
  "parseName p =
     (let b = basename p in
      if hasExt b then rev (tl (dropWhile (\<lambda>c. c \<noteq> CHR ''.'') (rev b))) else b)"

text \<open>\<open>markdownExtRegex\<close>, \<open>/\.md$/i\<close>, on a text: the text ends with \<open>.md\<close> in any case.\<close>

definition markdownExtRegex :: "string \<Rightarrow> bool" where
  "markdownExtRegex s =
     (3 \<le> length s \<and> map canonicalize (drop (length s - 3) s) = map canonicalize ''.md'')"

definition containsMarkdownExt :: "string \<Rightarrow> bool" where
  "containsMarkdownExt pathParam = markdownExtRegex (parseExt pathParam)"

text \<open>
  A \<open>vscode.Uri\<close> of a file: its \<open>path\<close> and its \<open>fsPath\<close>, which coincide on a POSIX
  system. \<open>Uri.joinPath\<close> appends a segment; the segments joined here are note file
  names, for which the join has nothing to normalise.
\<close>

record Uri =
  uriPath :: string
  fsPath :: string

definition joinPath :: "Uri \<Rightarrow> string \<Rightarrow> Uri" where
  "joinPath base segment =
     \<lparr>uriPath = uriPath base @ ''/'' @ segment, fsPath = fsPath base @ ''/'' @ segment\<rparr>"

text \<open>
  Modelled from the spec: \<open>sortPaths\<close> is \<open>sort\<close> of the library \<open>cross-path-sort\<close>,
  whose code is not among the sources. With \<open>shallowFirst\<close> the spec orders paths by
  hierarchical depth, the shorter first, and paths of equal depth lexically. The depth
  of a path is the number of its separators; \<open>pathKey\<close> selects the path of an element.
  The sort is by the pair of the depth and the path, pairs compared first by depth and
  then by the paths, character by character in the order of the code units.
\<close>

definition pathDepth :: "string \<Rightarrow> nat" where
  "pathDepth p = length (filter (\<lambda>c. c = CHR ''/'') p)"

definition shallowFirstKey :: "string \<Rightarrow> nat \<times> string" where
  "shallowFirstKey p = (pathDepth p, p)"

definition sortPaths :: "('a \<Rightarrow> string) \<Rightarrow> 'a list \<Rightarrow> 'a list" where
  "sortPaths pathKey xs = sort_key (\<lambda>x. shallowFirstKey (pathKey x)) xs"

section \<open>The cross-reference cache\<close>

text \<open>The notes of the engine, with the two fields that \<open>cacheUris\<close> reads.\<close>

record Note =
  fname :: string
  stub :: bool

text \<open>
  \<open>WorkspaceCache\<close>. \<open>danglingRefsByFsPath\<close> is a JavaScript object used as a
  dictionary: an association list in insertion order, the order of \<open>Object.values\<close>
  (its keys are file paths that end in \<open>.md\<close>, never array indices).
\<close>

record WorkspaceCache =
  imageUris :: "Uri list"
  markdownUris :: "Uri list"
  otherUris :: "Uri list"
  allUris :: "Uri list"
  danglingRefsByFsPath :: "(string \<times> string list) list"
  danglingRefs :: "string list"

definition workspaceCache :: WorkspaceCache where
  "workspaceCache =
     \<lparr>imageUris = [], markdownUris = [], otherUris = [], allUris = [],
      danglingRefsByFsPath = [], danglingRefs = []\<rparr>"

definition findUriByRef :: "Uri list \<Rightarrow> string \<Rightarrow> Uri option" where
  "findUriByRef uris r =
     find (\<lambda>u. let name = toLowerCase (parseName (fsPath u)) in
                containsMarkdownExt (basename (fsPath u)) \<and> name = toLowerCase r) uris"

text \<open>\<open>cacheUris\<close>, for the root folder and the notes of the engine (\<open>_.values\<close>).\<close>

definition cacheUris :: "Uri \<Rightarrow> Note list \<Rightarrow> WorkspaceCache \<Rightarrow> WorkspaceCache" where
  "cacheUris root notes cache =
     (let mdUris = map (\<lambda>n. joinPath root (fname n @ ''.md'')) (filter (\<lambda>n. \<not> stub n) notes)
      in cache\<lparr>markdownUris := sortPaths uriPath mdUris, allUris := sortPaths uriPath mdUris\<rparr>)"

text \<open>\<open>Array.from(new Set(xs))\<close>: the elements of \<open>xs\<close> in the order of their first
  insertion.\<close>

definition arrayFromSet :: "'a list \<Rightarrow> 'a list" where
  "arrayFromSet xs = foldl (\<lambda>acc x. if x \<in> set acc then acc else acc @ [x]) [] xs"

text \<open>\<open>content.split(/\r?\n/g)\<close>: the lines of a text, separated by LF or CR LF.\<close>

fun splitLines :: "string \<Rightarrow> string list" where
  "splitLines [] = [[]]"
| "splitLines (c # cs) =
     (if c = CHR 0x0A then [] # splitLines cs
      else if c = CHR 0x0D \<and> cs \<noteq> [] \<and> hd cs = CHR 0x0A then [] # splitLines (tl cs)
      else (case splitLines cs of l # ls \<Rightarrow> (c # l) # ls | [] \<Rightarrow> [[c]]))"

text \<open>
  The body of the loop over the matches of one line in \<open>extractDanglingRefs\<close>:
  \<open>reference\<close> is capture 2 of the match, tested for truth (defined and not empty).
\<close>

definition pushDangling :: "WorkspaceCache \<Rightarrow> string list \<Rightarrow> string \<times> string option list \<Rightarrow> string list" where
  "pushDangling cache refs m =
     (case group 2 (snd m) of
        None \<Rightarrow> refs
      | Some reference \<Rightarrow>
          if reference = [] then refs
          else if findUriByRef (allUris cache) (ref (parseRef reference)) = None
          then refs @ [ref (parseRef reference)]
          else refs)"

text \<open>
  The \<open>forEach\<close> over the lines: the array \<open>refs\<close> after the lines have been scanned,
  or \<open>None\<close> when \<open>matchAll\<close> does not return.
\<close>

fun scanLines :: "WorkspaceCache \<Rightarrow> string list \<Rightarrow> string list \<Rightarrow> string list option" where
  "scanLines cache [] refs = Some refs"
| "scanLines cache (lineText # rest) refs =
     (case matchAll refPattern lineText of
        None \<Rightarrow> None
      | Some ms \<Rightarrow> scanLines cache rest (foldl (pushDangling cache) refs ms))"

definition extractDanglingRefs :: "WorkspaceCache \<Rightarrow> string \<Rightarrow> string list option" where
  "extractDanglingRefs cache content =
     map_option arrayFromSet (scanLines cache (splitLines content) [])"

text \<open>
  The file system and the editor, as \<open>findDanglingRefsByFsPath\<close> reads them: a path
  names a regular file with its text, a directory, or nothing; the editor holds the
  open documents. Reading a path that is not a regular file gives no text (\<open>None\<close>,
  the exception of \<open>readFileSync\<close>).
\<close>

datatype fsEntry = RegularFile string | Directory

record TextDocument =
  uri :: Uri
  getText :: string

record Env =
  files :: "string \<Rightarrow> fsEntry option"
  textDocuments :: "TextDocument list"

definition existsSync :: "Env \<Rightarrow> string \<Rightarrow> bool" where
  "existsSync env p = (files env p \<noteq> None)"

definition isDirectory :: "Env \<Rightarrow> string \<Rightarrow> bool" where
  "isDirectory env p = (files env p = Some Directory)"

definition readFileSync :: "Env \<Rightarrow> string \<Rightarrow> string option" where
  "readFileSync env p = (case files env p of Some (RegularFile t) \<Rightarrow> Some t | _ \<Rightarrow> None)"

text \<open>The test that makes the loop of \<open>findDanglingRefsByFsPath\<close> skip a path.\<close>

definition skipped :: "Env \<Rightarrow> string \<Rightarrow> bool" where
  "skipped env p =
     (\<not> existsSync env p \<or> \<not> containsMarkdownExt p \<or> (existsSync env p \<and> isDirectory env p))"

text \<open>The text that is scanned: the open document of that path, else the file.\<close>

definition scannedText :: "Env \<Rightarrow> string \<Rightarrow> string option" where
  "scannedText env p =
     (case find (\<lambda>d. fsPath (uri d) = p) (textDocuments env) of
        Some d \<Rightarrow> Some (getText d)
      | None \<Rightarrow> readFileSync env p)"

text \<open>
  The loop of \<open>findDanglingRefsByFsPath\<close> over the uris, with the object
  \<open>refsByFsPath\<close> as accumulator. \<open>None\<close>: the loop does not return a value.
\<close>

fun findDanglingLoop ::
  "Env \<Rightarrow> WorkspaceCache \<Rightarrow> Uri list \<Rightarrow> (string \<times> string list) list \<Rightarrow> (string \<times> string list) list option" where
  "findDanglingLoop env cache [] refsByFsPath = Some refsByFsPath"
| "findDanglingLoop env cache (u # us) refsByFsPath =
     (if skipped env (fsPath u) then findDanglingLoop env cache us refsByFsPath
      else (case scannedText env (fsPath u) of
              None \<Rightarrow> None
            | Some text \<Rightarrow>
               (case extractDanglingRefs cache text of
                  None \<Rightarrow> None
                | Some refs \<Rightarrow>
                    findDanglingLoop env cache us
                      (if refs \<noteq> [] then AList.update (fsPath u) refs refsByFsPath
                       else refsByFsPath))))"

definition findDanglingRefsByFsPath ::
  "Env \<Rightarrow> WorkspaceCache \<Rightarrow> Uri list \<Rightarrow> (string \<times> string list) list option" where
  "findDanglingRefsByFsPath env cache uris = findDanglingLoop env cache uris []"

definition cacheRefs :: "Env \<Rightarrow> WorkspaceCache \<Rightarrow> WorkspaceCache option" where
  "cacheRefs env cache =
     (case findDanglingRefsByFsPath env cache (markdownUris cache) of
        None \<Rightarrow> None
      | Some byFsPath \<Rightarrow>
          Some (cache\<lparr>danglingRefsByFsPath := byFsPath,
                      danglingRefs := sortPaths (\<lambda>p. p) (arrayFromSet (concat (map snd byFsPath)))\<rparr>))"

definition cacheWorkspace :: "Env \<Rightarrow> Uri \<Rightarrow> Note list \<Rightarrow> WorkspaceCache \<Rightarrow> WorkspaceCache option" where
  "cacheWorkspace env root notes cache = cacheRefs env (cacheUris root notes cache)"

section \<open>Auxiliary definitions\<close>

text \<open>
  The definitions of this section are not part of the program: the lemmas below are
  stated with them. \<open>minLen\<close> is a lower bound on the length of a match of a pattern.
\<close>

fun minLenAtom :: "atom \<Rightarrow> nat" where
  "minLenAtom (Lit c) = 1"
| "minLenAtom (Star cl) = 0"
| "minLenAtom (StarLazy cl) = 0"
| "minLenAtom (PlusLazy cl) = 1"

fun minLenPiece :: "piece \<Rightarrow> nat" where
  "minLenPiece (A a) = minLenAtom a"
| "minLenPiece (Group as) = sum_list (map minLenAtom as)"
| "minLenPiece (OptGroup as) = 0"

definition minLen :: "regex \<Rightarrow> nat" where
  "minLen re = sum_list (map minLenPiece re)"

text \<open>The part of the rename pattern after its optional group.\<close>

definition tailPattern :: "string \<Rightarrow> regex" where
  "tailPattern oldRef =
     A (Star Whitespace) # map (\<lambda>c. A (Lit c)) oldRef
       @ [A (Star Whitespace), A (Lit CHR '']''), A (Lit CHR '']'')]"

text \<open>
  What the loop of \<open>findDanglingRefsByFsPath\<close> records for a path that it scans: the
  dangling references of the scanned text when there are any.
\<close>

definition scanOf :: "Env \<Rightarrow> WorkspaceCache \<Rightarrow> string \<Rightarrow> string list option" where
  "scanOf env cache p =
     (if skipped env p then None
      else case scannedText env p of None \<Rightarrow> None | Some t \<Rightarrow>
        (case extractDanglingRefs cache t of None \<Rightarrow> None | Some refs \<Rightarrow> if refs = [] then None else Some refs))"

text \<open>
  The links of a text by their offsets. A link starts at offset \<open>i\<close> of a text when the
  text reads, from there, \<open>[[\<close>, a non-empty token without brackets and without a line
  feed, and \<open>]]\<close>; \<open>linkAt\<close> gives that token. A line feed ends a line, so a link
  lies within one line. \<open>linkTokens\<close> lists the tokens of the links of a text by
  increasing offset: from the top line to the bottom line, and from left to right
  within a line. The reference of a token is the text after its first divider, or the
  whole token when it has none, without the whitespace around it.
  \<open>danglingOccurrences\<close> are the references of the tokens of the links that resolve to
  no known uri, in the same order and with their repetitions.
\<close>

definition linkAt :: "string \<Rightarrow> nat \<Rightarrow> string option" where
  "linkAt content i =
     (let s = drop i content;
          t = takeWhile (\<lambda>c. c \<noteq> CHR ''['' \<and> c \<noteq> CHR '']'' \<and> c \<noteq> CHR 0x0A) (drop 2 s)
      in if take 2 s = ''[['' \<and> t \<noteq> [] \<and> take 2 (drop (2 + length t) s) = '']]''
         then Some t else None)"

definition linkTokens :: "string \<Rightarrow> string list" where
  "linkTokens content =
     map (\<lambda>i. the (linkAt content i)) (filter (\<lambda>i. linkAt content i \<noteq> None) [0..<length content])"

definition tokenRef :: "string \<Rightarrow> string" where
  "tokenRef t = trim (case dropWhile (\<lambda>c. c \<noteq> CHR ''|'') t of [] \<Rightarrow> t | d # r \<Rightarrow> r)"

definition danglingOccurrences :: "WorkspaceCache \<Rightarrow> string \<Rightarrow> string list" where
  "danglingOccurrences cache content =
     filter (\<lambda>r. findUriByRef (allUris cache) r = None) (map tokenRef (linkTokens content))"

text \<open>The vaults of the examples below.\<close>

definition vaultRoot :: Uri where
  "vaultRoot = \<lparr>uriPath = ''/v'', fsPath = ''/v''\<rparr>"

definition stubVault :: "Note list" where
  "stubVault =
     [\<lparr>fname = ''root'', stub = False\<rparr>, \<lparr>fname = ''foo'', stub = True\<rparr>,
      \<lparr>fname = ''foo.ch1'', stub = False\<rparr>]"

definition stubVaultEnv :: Env where
  "stubVaultEnv =
     \<lparr>files = map_of [(''/v/root.md'', RegularFile ''see [[foo]]''),
                       (''/v/foo.ch1.md'', RegularFile ''no links'')],
      textDocuments = []\<rparr>"

definition twoNotes :: "Note list" where
  "twoNotes = [\<lparr>fname = ''a'', stub = False\<rparr>, \<lparr>fname = ''b'', stub = False\<rparr>]"

definition twoNotesEnv :: Env where
  "twoNotesEnv =
     \<lparr>files = map_of [(''/v/a.md'', RegularFile ''[[zzz]]''), (''/v/b.md'', RegularFile ''[[aaa]]'')],
      textDocuments = []\<rparr>"

section \<open>Facts about the matcher\<close>

lemma starGreedy_split: "(m, r) \<in> set (starGreedy P s) \<Longrightarrow> s = m @ r \<and> (\<forall>c \<in> set m. P c)"
  by (induction s arbitrary: m r) (auto split: if_splits)

lemma starLazy_split: "(m, r) \<in> set (starLazy P s) \<Longrightarrow> s = m @ r \<and> (\<forall>c \<in> set m. P c)"
  by (induction s arbitrary: m r) (auto split: if_splits)

lemma matchAtom_split: "(m, r) \<in> set (matchAtom a s) \<Longrightarrow> s = m @ r \<and> minLenAtom a \<le> length m"
  by (cases a; cases s) (auto split: if_splits dest: starGreedy_split starLazy_split)

lemma matchAtoms_split:
  "(m, r) \<in> set (matchAtoms as s) \<Longrightarrow> s = m @ r \<and> sum_list (map minLenAtom as) \<le> length m"
proof (induction as arbitrary: s m r)
  case Nil
  then show ?case by simp
next
  case (Cons a as)
  from Cons.prems obtain m1 r1 m2 where
    a: "(m1, r1) \<in> set (matchAtom a s)" and b: "(m2, r) \<in> set (matchAtoms as r1)" and m: "m = m1 @ m2"
    by auto
  from matchAtom_split [OF a] Cons.IH [OF b] m show ?case by simp
qed

lemma matchPieces_split:
  "(m, caps, r) \<in> set (matchPieces ps s) \<Longrightarrow> s = m @ r \<and> minLen ps \<le> length m"
proof (induction ps arbitrary: s m caps r)
  case Nil
  then show ?case by (simp add: minLen_def)
next
  case (Cons p ps)
  show ?case
  proof (cases p)
    case (A a)
    with Cons.prems obtain m1 r1 m2 where
      a: "(m1, r1) \<in> set (matchAtom a s)" and b: "(m2, caps, r) \<in> set (matchPieces ps r1)"
      and m: "m = m1 @ m2"
      by auto
    from matchAtom_split [OF a] Cons.IH [OF b] m A show ?thesis by (simp add: minLen_def)
  next
    case (Group as)
    with Cons.prems obtain m1 r1 m2 caps2 where
      a: "(m1, r1) \<in> set (matchAtoms as s)" and b: "(m2, caps2, r) \<in> set (matchPieces ps r1)"
      and m: "m = m1 @ m2"
      by auto
    from matchAtoms_split [OF a] Cons.IH [OF b] m Group show ?thesis by (simp add: minLen_def)
  next
    case (OptGroup as)
    with Cons.prems consider
      (grp) m1 r1 m2 caps2 where "(m1, r1) \<in> set (matchAtoms as s)"
        "(m2, caps2, r) \<in> set (matchPieces ps r1)" "m = m1 @ m2"
      | (nogrp) caps2 where "(m, caps2, r) \<in> set (matchPieces ps s)"
      by auto
    then show ?thesis
    proof cases
      case grp
      from matchAtoms_split [OF grp(1)] Cons.IH [OF grp(2)] grp(3) OptGroup show ?thesis
        by (simp add: minLen_def)
    next
      case nogrp
      from Cons.IH [OF nogrp] OptGroup show ?thesis by (simp add: minLen_def)
    qed
  qed
qed

lemma matchHere_split:
  "matchHere re s = Some (m, caps, r) \<Longrightarrow> s = m @ r \<and> minLen re \<le> length m"
  using matchPieces_split [of m caps r re s]
  by (auto simp: matchHere_def split: list.splits)

lemma minLen_refPattern: "minLen refPattern = 5"
  by (simp add: minLen_def refPattern_def)

lemma matchAllFrom_total:
  "0 < minLen re \<Longrightarrow> \<exists>ms. matchAllFrom re k s = Some ms"
proof (induction s arbitrary: k)
  case Nil
  show ?case
  proof (cases k)
    case 0
    have "matchHere re [] = None"
    proof (cases "matchHere re []")
      case (Some x)
      obtain m caps r where "x = (m, caps, r)" by (cases x)
      with Some matchHere_split [of re "[]" m caps r] Nil show ?thesis by auto
    qed simp
    with 0 show ?thesis by simp
  qed simp
next
  case (Cons c cs)
  show ?case
  proof (cases k)
    case 0
    show ?thesis
    proof (cases "matchHere re (c # cs)")
      case None
      with 0 Cons show ?thesis by simp
    next
      case (Some x)
      obtain m caps r where x: "x = (m, caps, r)" by (cases x)
      with Some matchHere_split [of re "c # cs" m caps r] Cons.prems have "m \<noteq> []" by auto
      moreover obtain ms where "matchAllFrom re (length m - 1) cs = Some ms"
        using Cons.IH [OF Cons.prems] by blast
      ultimately show ?thesis using 0 Some x by simp
    qed
  next
    case (Suc j)
    with Cons show ?thesis by simp
  qed
qed

lemma matchAll_refPattern_total: "\<exists>ms. matchAll refPattern lineText = Some ms"
  unfolding matchAll_def by (rule matchAllFrom_total) (simp add: minLen_refPattern)

subsection \<open>Characters\<close>

lemma canonicalize_eq_special:
  assumes "canonicalize d = canonicalize c" "of_char c < (97::nat)" "of_char c \<notin> {65..90::nat}"
  shows "d = c"
proof -
  have c: "canonicalize c = of_char c" using assms(2) by (simp add: canonicalize_def)
  have "(of_char d :: nat) = of_char c"
    using assms c by (auto simp: canonicalize_def Let_def split: if_splits)
  then show ?thesis by (simp only: of_char_eq_iff)
qed

lemma canonicalize_open: "canonicalize CHR ''['' = canonicalize d \<Longrightarrow> d = CHR ''[''"
  by (rule canonicalize_eq_special) simp_all

lemma canonicalize_close: "canonicalize CHR '']'' = canonicalize d \<Longrightarrow> d = CHR '']''"
  by (rule canonicalize_eq_special) simp_all

lemma not_space: "\<not> isWhiteSpace CHR '']''" "\<not> isWhiteSpace CHR ''|''"
  by (simp_all add: isWhiteSpace_def)

subsection \<open>Matches end with the last literal of the pattern\<close>

lemma minLen_simps:
  "minLen [] = 0"
  "minLen (p # ps) = minLenPiece p + minLen ps"
  "minLen (ps @ qs) = minLen ps + minLen qs"
  "minLen (map (\<lambda>c. A (Lit c)) s) = length s"
  by (simp_all add: minLen_def comp_def) (induction s, simp_all)

lemma matchPieces_last_lit:
  "(m, caps, r) \<in> set (matchPieces (ps @ [A (Lit c)]) s) \<Longrightarrow>
     m \<noteq> [] \<and> canonicalize c = canonicalize (last m)"
proof (induction ps arbitrary: s m caps r)
  case Nil
  then show ?case by (cases s) (auto split: if_splits)
next
  case (Cons p ps)
  show ?case
  proof (cases p)
    case (A a)
    with Cons.prems obtain m1 r1 m2 where
      b: "(m2, caps, r) \<in> set (matchPieces (ps @ [A (Lit c)]) r1)" and m: "m = m1 @ m2"
      by auto
    from Cons.IH [OF b] m show ?thesis by simp
  next
    case (Group as)
    with Cons.prems obtain m1 r1 m2 caps2 where
      b: "(m2, caps2, r) \<in> set (matchPieces (ps @ [A (Lit c)]) r1)" and m: "m = m1 @ m2"
      by auto
    from Cons.IH [OF b] m show ?thesis by simp
  next
    case (OptGroup as)
    with Cons.prems consider
      (grp) m1 r1 m2 caps2 where
        "(m2, caps2, r) \<in> set (matchPieces (ps @ [A (Lit c)]) r1)" "m = m1 @ m2"
      | (nogrp) caps2 where "(m, caps2, r) \<in> set (matchPieces (ps @ [A (Lit c)]) s)"
      by auto
    then show ?thesis
    proof cases
      case grp
      from Cons.IH [OF grp(1)] grp(2) show ?thesis by simp
    next
      case nogrp
      from Cons.IH [OF nogrp] show ?thesis .
    qed
  qed
qed

text \<open>A pattern that ends with a closing bracket has no match in a text that leaves
  too little room before the part without closing brackets.\<close>

lemma no_match_short:
  assumes "z @ post = a @ ds" "a \<noteq> []" "CHR '']'' \<notin> set post"
    and "length z \<le> minLen (qs @ [A (Lit CHR '']'')])"
  shows "matchPieces (qs @ [A (Lit CHR '']'')]) ds = []"
proof (rule ccontr)
  assume "matchPieces (qs @ [A (Lit CHR '']'')]) ds \<noteq> []"
  then obtain m caps r rest where "matchPieces (qs @ [A (Lit CHR '']'')]) ds = (m, caps, r) # rest"
    by (metis neq_Nil_conv prod_cases3)
  then have x: "(m, caps, r) \<in> set (matchPieces (qs @ [A (Lit CHR '']'')]) ds)"
    by simp
  from matchPieces_split [OF x] have ds: "ds = m @ r" and len: "length z \<le> length m"
    using assms(4) by auto
  from matchPieces_last_lit [OF x] have ne: "m \<noteq> []" and l: "last m = CHR '']''"
    using canonicalize_close by auto
  have "z @ post = (a @ butlast m) @ last m # r"
    using assms(1) ds ne by simp
  moreover have "length z \<le> length (a @ butlast m)"
    using len assms(2) ne by (cases a) auto
  ultimately have "last m \<in> set post"
    by (auto simp: append_eq_append_conv2 append_eq_Cons_conv)
  with l assms(3) show False by simp
qed

lemma no_match_without_close:
  assumes "CHR '']'' \<notin> set s"
  shows "matchHere (qs @ [A (Lit CHR '']'')]) s = None"
proof (cases "matchHere (qs @ [A (Lit CHR '']'')]) s")
  case (Some x)
  obtain m caps r where x: "x = (m, caps, r)" by (cases x)
  with Some have mem: "(m, caps, r) \<in> set (matchPieces (qs @ [A (Lit CHR '']'')]) s)"
    by (auto simp: matchHere_def split: list.splits)
  from matchPieces_split [OF mem] matchPieces_last_lit [OF mem] canonicalize_close
  have "s = m @ r" "m \<noteq> []" "last m = CHR '']''" by auto
  then have "CHR '']'' \<in> set s" by (metis last_in_set set_append UnI1)
  with assms show ?thesis by simp
qed simp

lemma no_match_without_open:
  assumes "CHR ''['' \<noteq> c"
  shows "matchHere (A (Lit CHR ''['') # ps) (c # cs) = None"
  using assms canonicalize_open [of c] by (auto simp: matchHere_def)

subsection \<open>Scanning a text\<close>

lemma replaceFrom_skip: "replaceFrom re f (length m) (m @ s) = replaceFrom re f 0 s"
  by (induction m) simp_all

lemma replaceFrom_match:
  assumes "matchHere re s = Some (m, caps, r)" "m \<noteq> []"
  shows "replaceFrom re f 0 s = f m caps @ replaceFrom re f 0 r"
proof -
  from matchHere_split [OF assms(1)] have s: "s = m @ r" by simp
  obtain c m' where m: "m = c # m'" using assms(2) by (cases m) auto
  have "replaceFrom re f (length m - 1) (m' @ r) = replaceFrom re f 0 r"
    using replaceFrom_skip [of re f m' r] m by simp
  then show ?thesis
    using assms s m by simp
qed

lemma replaceFrom_no_open:
  assumes "CHR ''['' \<notin> set pre"
  shows "replaceFrom (A (Lit CHR ''['') # ps) f 0 (pre @ s) = pre @ replaceFrom (A (Lit CHR ''['') # ps) f 0 s"
  using assms by (induction pre) (simp_all add: no_match_without_open)

lemma replaceFrom_no_close:
  assumes "CHR '']'' \<notin> set s"
  shows "replaceFrom (qs @ [A (Lit CHR '']'')]) f 0 s = s"
  using assms
proof (induction s)
  case Nil
  then show ?case by (simp add: no_match_without_close)
next
  case (Cons c cs)
  then have "matchHere (qs @ [A (Lit CHR '']'')]) (c # cs) = None"
    by (intro no_match_without_close) simp
  with Cons show ?case by simp
qed

lemma regexExec_prefix:
  assumes "matchHere re s \<noteq> None"
  shows "regexExec re (pre @ s) \<noteq> None"
proof (induction pre)
  case Nil
  from assms show ?case by (cases s) auto
next
  case (Cons c pre)
  then show ?case by (cases "matchHere re (c # pre @ s)") auto
qed

subsection \<open>Stars and literals\<close>

lemma inClass_fun:
  "inClass Whitespace = isWhiteSpace"
  "inClass AnyChar = (\<lambda>c. \<not> isLineTerminator c)"
  by (rule ext, simp)+

lemma starGreedy_last:
  "\<exists>longer. starGreedy P r = longer @ [([], r)] \<and> (\<forall>(m, r') \<in> set longer. m \<noteq> [] \<and> r = m @ r')"
proof (cases r)
  case Nil
  then show ?thesis by simp
next
  case (Cons c cs)
  let ?l = "if P c then map (\<lambda>(m, r). (c # m, r)) (starGreedy P cs) else []"
  have "starGreedy P r = ?l @ [([], r)]" using Cons by simp
  moreover have "\<forall>(m, r') \<in> set ?l. m \<noteq> [] \<and> r = m @ r'"
    using Cons by (auto dest: starGreedy_split)
  ultimately show ?thesis by blast
qed

lemma starGreedy_prefix:
  assumes "\<forall>c \<in> set L. P c"
  shows "\<exists>longer shorter.
     starGreedy P (L @ r) = map (\<lambda>(m, r'). (L @ m, r')) longer @ (L, r) # shorter \<and>
     (\<forall>(m, r') \<in> set longer. m \<noteq> [] \<and> r = m @ r')"
  using assms
proof (induction L)
  case Nil
  from starGreedy_last [of P r] obtain longer where
    "starGreedy P r = longer @ [([], r)]" "\<forall>(m, r') \<in> set longer. m \<noteq> [] \<and> r = m @ r'"
    by blast
  then have "starGreedy P ([] @ r) = map (\<lambda>(m, r'). ([] @ m, r')) longer @ ([], r) # []"
    by simp
  with \<open>\<forall>(m, r') \<in> set longer. m \<noteq> [] \<and> r = m @ r'\<close> show ?case by blast
next
  case (Cons c L)
  then obtain longer shorter where
    eq: "starGreedy P (L @ r) = map (\<lambda>(m, r'). (L @ m, r')) longer @ (L, r) # shorter"
    and l: "\<forall>(m, r') \<in> set longer. m \<noteq> [] \<and> r = m @ r'"
    by auto
  have "starGreedy P ((c # L) @ r) =
      map (\<lambda>(m, r'). ((c # L) @ m, r')) longer @ (c # L, r)
        # (map (\<lambda>(m, r). (c # m, r)) shorter @ [([], (c # L) @ r)])"
    using Cons.prems eq by (simp add: case_prod_unfold comp_def)
  with l show ?case by blast
qed

lemma starLazy_head: "\<exists>more. starLazy P t = ([], t) # more"
  by (cases t) simp_all

lemma matchPieces_lits:
  "matchPieces (map (\<lambda>c. A (Lit c)) oldRef @ qs) s =
     (if map canonicalize (take (length oldRef) s) = map canonicalize oldRef
      then map (\<lambda>(m2, caps, r2). (take (length oldRef) s @ m2, caps, r2))
             (matchPieces qs (drop (length oldRef) s))
      else [])"
proof (induction oldRef arbitrary: s)
  case Nil
  show ?case by (simp add: case_prod_unfold)
next
  case (Cons c cs)
  show ?case
  proof (cases s)
    case Nil
    then show ?thesis by simp
  next
    case (Cons d ds)
    then show ?thesis
      using Cons.IH [of ds] by (auto simp: case_prod_unfold comp_def)
  qed
qed

lemma matchPieces_lits_match:
  assumes "map canonicalize O' = map canonicalize oldRef"
  shows "matchPieces (map (\<lambda>c. A (Lit c)) oldRef @ qs) (O' @ t) =
     map (\<lambda>(m2, caps, r2). (O' @ m2, caps, r2)) (matchPieces qs t)"
proof -
  have len: "length oldRef = length O'"
    using assms by (metis length_map)
  show ?thesis
    unfolding matchPieces_lits by (simp add: len assms)
qed

lemma matchAtoms_lit: 
  "matchAtoms [Lit c] s =
     (case s of [] \<Rightarrow> [] | d # ds \<Rightarrow> if canonicalize c = canonicalize d then [([d], ds)] else [])"
  by (cases s) simp_all

lemma matchPieces_close:
  "matchPieces [A (Star Whitespace), A (Lit CHR '']''), A (Lit CHR '']'')] (CHR '']'' # CHR '']'' # post)
     = [('']]'', [], post)]"
  by (simp add: not_space)

lemma tailPattern_snoc:
  "tailPattern oldRef =
     (A (Star Whitespace) # map (\<lambda>c. A (Lit c)) oldRef @ [A (Star Whitespace), A (Lit CHR '']'')])
       @ [A (Lit CHR '']'')]"
  "map (\<lambda>c. A (Lit c)) oldRef @ [A (Star Whitespace), A (Lit CHR '']''), A (Lit CHR '']'')] =
     (map (\<lambda>c. A (Lit c)) oldRef @ [A (Star Whitespace), A (Lit CHR '']'')]) @ [A (Lit CHR '']'')]"
  by (simp_all add: tailPattern_def)

lemma minLen_tail:
  "minLen (tailPattern oldRef) = length oldRef + 2"
  "minLen (map (\<lambda>c. A (Lit c)) oldRef @ [A (Star Whitespace), A (Lit CHR '']''), A (Lit CHR '']'')])
     = length oldRef + 2"
  by (simp_all add: tailPattern_def minLen_simps)

lemma tail_no_match:
  assumes "z @ post = a @ ds" "a \<noteq> []" "CHR '']'' \<notin> set post" "length z = length oldRef + 2"
  shows "matchPieces (tailPattern oldRef) ds = []"
    and "matchPieces (map (\<lambda>c. A (Lit c)) oldRef @ [A (Star Whitespace), A (Lit CHR '']''), A (Lit CHR '']'')]) ds = []"
proof -
  show "matchPieces (tailPattern oldRef) ds = []"
    unfolding tailPattern_snoc(1)
    by (rule no_match_short [OF assms(1-3)]) (simp add: minLen_simps assms(4))
  show "matchPieces (map (\<lambda>c. A (Lit c)) oldRef @ [A (Star Whitespace), A (Lit CHR '']''), A (Lit CHR '']'')]) ds = []"
    unfolding tailPattern_snoc(2)
    by (rule no_match_short [OF assms(1-3)]) (simp add: minLen_simps assms(4))
qed

lemma concat_map_all_Nil: "(\<And>x. x \<in> set xs \<Longrightarrow> F x = []) \<Longrightarrow> concat (map F xs) = []"
  by (induction xs) simp_all

lemma tail_exact:
  assumes "CHR '']'' \<notin> set post" "map canonicalize O' = map canonicalize oldRef"
  shows "matchPieces (tailPattern oldRef) (O' @ '']]'' @ post) = [(O' @ '']]'', [], post)]"
proof -
  let ?s = "O' @ '']]'' @ post"
  let ?rest = "map (\<lambda>c. A (Lit c)) oldRef @ [A (Star Whitespace), A (Lit CHR '']''), A (Lit CHR '']'')]"
  let ?F = "\<lambda>(m1, r1). map (\<lambda>(m2, caps, r2). (m1 @ m2, caps, r2)) (matchPieces ?rest r1)"
  have len: "length oldRef = length O'"
    using assms(2) by (metis length_map)
  obtain longer where sg: "starGreedy isWhiteSpace ?s = longer @ [([], ?s)]"
    and l: "\<forall>(m, r') \<in> set longer. m \<noteq> [] \<and> ?s = m @ r'"
    using starGreedy_last [of isWhiteSpace ?s] by blast
  have "?F x = []" if "x \<in> set longer" for x
  proof -
    obtain w y where x: "x = (w, y)" by (cases x)
    with l that have w: "w \<noteq> []" "(O' @ '']]'') @ post = w @ y" by auto
    have "matchPieces ?rest y = []"
      by (rule tail_no_match(2) [OF w(2) w(1) assms(1)]) (simp add: len)
    then show ?thesis by (simp add: x)
  qed
  then have 1: "concat (map ?F longer) = []" by (rule concat_map_all_Nil)
  have 2: "?F ([], ?s) = [(O' @ '']]'', [], post)]"
    by (simp add: matchPieces_lits_match [OF assms(2)] not_space)
  have "matchPieces (tailPattern oldRef) ?s = concat (map ?F (starGreedy isWhiteSpace ?s))"
    by (simp add: tailPattern_def inClass_fun)
  also have "\<dots> = concat (map ?F longer) @ ?F ([], ?s)"
    unfolding sg by simp
  finally show ?thesis using 1 2 by simp
qed

subsection \<open>The optional label group\<close>

lemma optgroup_unlabelled:
  assumes "CHR '']'' \<notin> set post" "map canonicalize O' = map canonicalize oldRef"
  shows "matchPieces (OptGroup [Star AnyChar, Lit CHR ''|''] # tailPattern oldRef) (O' @ '']]'' @ post)
     = [(O' @ '']]'', [None], post)]"
proof -
  let ?s = "O' @ '']]'' @ post"
  let ?G = "\<lambda>(m1, r1). map (\<lambda>(m2, caps, r2). (m1 @ m2, Some m1 # caps, r2))
              (matchPieces (tailPattern oldRef) r1)"
  let ?gm = "filter (\<lambda>(m1, r1). m1 \<noteq> []) (matchAtoms [Star AnyChar, Lit CHR ''|''] ?s)"
  have len: "length oldRef = length O'"
    using assms(2) by (metis length_map)
  have "?G x = []" if "x \<in> set ?gm" for x
  proof -
    obtain g ds where x: "x = (g, ds)" by (cases x)
    with that have mem: "(g, ds) \<in> set (matchAtoms [Star AnyChar, Lit CHR ''|''] ?s)" and g: "g \<noteq> []"
      by auto
    from matchAtoms_split [OF mem] have s: "(O' @ '']]'') @ post = g @ ds" by simp
    have "matchPieces (tailPattern oldRef) ds = []"
      by (rule tail_no_match(1) [OF s g assms(1)]) (simp add: len)
    then show ?thesis by (simp add: x)
  qed
  then have E: "concat (map ?G ?gm) = []" by (rule concat_map_all_Nil)
  show ?thesis
    unfolding matchPieces.simps(4) E tail_exact [OF assms] by simp
qed

lemma concat_filter_concat:
  "concat (map G (filter Q (concat (map H xs)))) = concat (map (\<lambda>x. concat (map G (filter Q (H x)))) xs)"
  by (induction xs) simp_all

lemma optgroup_labelled:
  assumes "CHR '']'' \<notin> set post" "map canonicalize O' = map canonicalize oldRef"
    and "\<forall>c \<in> set L. \<not> isLineTerminator c"
  shows "\<exists>rest. matchPieces (OptGroup [Star AnyChar, Lit CHR ''|''] # tailPattern oldRef)
           (L @ ''|'' @ O' @ '']]'' @ post)
     = (L @ ''|'' @ O' @ '']]'', [Some (L @ ''|'')], post) # rest"
proof -
  let ?r = "''|'' @ O' @ '']]'' @ post"
  let ?nlt = "\<lambda>c. \<not> isLineTerminator c"
  let ?G = "\<lambda>(m1, r1). map (\<lambda>(m2, caps, r2). (m1 @ m2, Some m1 # caps, r2))
              (matchPieces (tailPattern oldRef) r1)"
  let ?H = "\<lambda>(m1, r1). map (\<lambda>(m2, r2). (m1 @ m2, r2)) (matchAtoms [Lit CHR ''|''] r1)"
  let ?ne = "\<lambda>(m1 :: string, r1 :: string). m1 \<noteq> []"
  let ?K = "\<lambda>x. concat (map ?G (filter ?ne (?H x)))"
  have len: "length oldRef = length O'"
    using assms(2) by (metis length_map)
  obtain longer shorter where
    sg: "starGreedy ?nlt (L @ ?r) = map (\<lambda>(m, r'). (L @ m, r')) longer @ (L, ?r) # shorter"
    and l: "\<forall>(m, r') \<in> set longer. m \<noteq> [] \<and> ?r = m @ r'"
    using starGreedy_prefix [OF assms(3), of ?r] by blast
  have gm: "matchAtoms [Star AnyChar, Lit CHR ''|''] (L @ ?r) = concat (map ?H (starGreedy ?nlt (L @ ?r)))"
    by (simp add: inClass_fun del: starGreedy.simps)
  have K0: "?K x = []" if "x \<in> set (map (\<lambda>(m, r'). (L @ m, r')) longer)" for x
  proof -
    from that obtain m r' where x: "x = (L @ m, r')" and mem: "(m, r') \<in> set longer" by auto
    with l have m: "m \<noteq> []" and r: "?r = m @ r'" by auto
    have "?G e = []" if "e \<in> set (filter ?ne (?H x))" for e
    proof -
      from that x obtain m2 r2 where e: "e = (L @ m @ m2, r2)"
        and mem2: "(m2, r2) \<in> set (matchAtoms [Lit CHR ''|''] r')"
        by auto
      from matchAtoms_split [OF mem2] have r': "r' = m2 @ r2" and m2: "m2 \<noteq> []" by auto
      obtain m' where m': "m = CHR ''|'' # m'" using m r by (cases m) auto
      have s: "(O' @ '']]'') @ post = (m' @ m2) @ r2" using r r' m' by simp
      have "matchPieces (tailPattern oldRef) r2 = []"
        by (rule tail_no_match(1) [OF s _ assms(1)]) (simp_all add: m2 len)
      then show ?thesis by (simp add: e)
    qed
    then show ?thesis by (rule concat_map_all_Nil)
  qed
  have K1: "?K (L, ?r) = [(L @ ''|'' @ O' @ '']]'', [Some (L @ ''|'')], post)]"
    using tail_exact [OF assms(1,2)] by simp
  have "concat (map ?G (filter ?ne (matchAtoms [Star AnyChar, Lit CHR ''|''] (L @ ?r))))
      = concat (map ?K (starGreedy ?nlt (L @ ?r)))"
    unfolding gm by (rule concat_filter_concat)
  also have "\<dots> = concat (map ?K (map (\<lambda>(m, r'). (L @ m, r')) longer)) @ ?K (L, ?r) @ concat (map ?K shorter)"
    unfolding sg by simp
  also have "concat (map ?K (map (\<lambda>(m, r'). (L @ m, r')) longer)) = []"
    using K0 by (rule concat_map_all_Nil)
  finally have E: "concat (map ?G (filter ?ne (matchAtoms [Star AnyChar, Lit CHR ''|''] (L @ ?r))))
      = (L @ ''|'' @ O' @ '']]'', [Some (L @ ''|'')], post) # concat (map ?K shorter)"
    using K1 by simp
  show ?thesis
    unfolding matchPieces.simps(4) E by simp
qed

subsection \<open>The rename pattern on one link\<close>

lemma head_through_lazy:
  assumes "matchPieces ps t = x # rest"
  shows "\<exists>rest'. matchPieces (A (StarLazy cl) # ps) t = x # rest'"
proof -
  obtain more where "starLazy (inClass cl) t = ([], t) # more"
    using starLazy_head by blast
  moreover obtain m caps r where "x = (m, caps, r)" by (cases x)
  ultimately show ?thesis using assms by simp
qed

lemma head_through_lit:
  assumes "matchPieces ps t = (m, caps, r) # rest" "canonicalize c = canonicalize d"
  shows "\<exists>rest'. matchPieces (A (Lit c) # ps) (d # t) = (d # m, caps, r) # rest'"
  using assms by simp

lemma renamePattern_forms:
  "renamePattern oldRef =
     A (Lit CHR ''['') # A (Lit CHR ''['') # A (StarLazy Whitespace)
       # OptGroup [Star AnyChar, Lit CHR ''|''] # tailPattern oldRef"
  "renamePattern oldRef =
     ([A (Lit CHR ''[''), A (Lit CHR ''[''), A (StarLazy Whitespace),
       OptGroup [Star AnyChar, Lit CHR ''|''], A (Star Whitespace)]
      @ map (\<lambda>c. A (Lit c)) oldRef @ [A (Star Whitespace), A (Lit CHR '']'')]) @ [A (Lit CHR '']'')]"
  by (simp_all add: renamePattern_def tailPattern_def)

lemma matchHere_renamePattern:
  assumes "matchPieces (OptGroup [Star AnyChar, Lit CHR ''|''] # tailPattern oldRef) t = (m, caps, r) # rest"
  shows "matchHere (renamePattern oldRef) (''[['' @ t) = Some (''[['' @ m, caps, r)"
proof -
  from head_through_lazy [OF assms] obtain r1 where
    "matchPieces (A (StarLazy Whitespace) # OptGroup [Star AnyChar, Lit CHR ''|''] # tailPattern oldRef) t
       = (m, caps, r) # r1" by blast
  from head_through_lit [OF this, of "CHR ''[''" "CHR ''[''"] obtain r2 where
    "matchPieces (A (Lit CHR ''['') # A (StarLazy Whitespace) # OptGroup [Star AnyChar, Lit CHR ''|'']
        # tailPattern oldRef) (CHR ''['' # t) = (CHR ''['' # m, caps, r) # r2" by blast
  from head_through_lit [OF this, of "CHR ''[''" "CHR ''[''"] obtain r3 where
    "matchPieces (renamePattern oldRef) (CHR ''['' # CHR ''['' # t) = (CHR ''['' # CHR ''['' # m, caps, r) # r3"
    unfolding renamePattern_forms(1) by blast
  then show ?thesis by (simp add: matchHere_def)
qed

lemma replaceAll_one_link:
  assumes "CHR ''['' \<notin> set pre" "CHR '']'' \<notin> set post"
    and "matchHere (renamePattern oldRef) (''[['' @ t) = Some (m, caps, post)"
  shows "replaceAll (renamePattern oldRef) f (pre @ ''[['' @ t) = pre @ f m caps @ post"
    and "regexExec (renamePattern oldRef) (pre @ ''[['' @ t) \<noteq> None"
proof -
  let ?re = "renamePattern oldRef"
  from matchHere_split [OF assms(3)] have "m \<noteq> []"
    by (auto simp: minLen_def renamePattern_def)
  then have 1: "replaceFrom ?re f 0 (''[['' @ t) = f m caps @ replaceFrom ?re f 0 post"
    using replaceFrom_match [OF assms(3)] by simp
  have 2: "replaceFrom ?re f 0 post = post"
    unfolding renamePattern_forms(2) by (rule replaceFrom_no_close [OF assms(2)])
  have 3: "replaceFrom ?re f 0 (pre @ ''[['' @ t) = pre @ replaceFrom ?re f 0 (''[['' @ t)"
    unfolding renamePattern_forms(1) by (rule replaceFrom_no_open [OF assms(1)])
  show "replaceAll ?re f (pre @ ''[['' @ t) = pre @ f m caps @ post"
    unfolding replaceAll_def 3 1 2 ..
  show "regexExec ?re (pre @ ''[['' @ t) \<noteq> None"
    using assms(3) by (intro regexExec_prefix) simp
qed

lemma replaceRefs_single:
  "regexExec (renamePattern oldRef) content \<noteq> None \<Longrightarrow>
   replaceRefs [\<lparr>old = oldRef, new = newRef\<rparr>] content =
     Some (replaceAll (renamePattern oldRef) (replacer newRef) content)"
  by (simp add: replaceRefs_def replaceRefsStep_def)

lemma dropWhile_snoc: "\<not> P y \<Longrightarrow> dropWhile P (xs @ [y]) = dropWhile P xs @ [y]"
  by (induction xs) simp_all

lemma trim_label: "trim (L @ ''|'') = trimStart L @ ''|''"
  by (simp add: trim_def trimEnd_def trimStart_def not_space dropWhile_snoc)

lemma replacer_simps:
  "replacer newRef m [Some g] = ''[['' @ trim g @ newRef @ '']]''"
  "replacer newRef m [None] = ''[['' @ newRef @ '']]''"
  by (simp_all add: replacer_def group_def)

lemma replaceRefs_labelled_link:
  assumes "CHR ''['' \<notin> set pre" "CHR '']'' \<notin> set post"
    and "map canonicalize O' = map canonicalize oldRef"
    and "\<forall>c \<in> set L. \<not> isLineTerminator c"
  shows "replaceRefs [\<lparr>old = oldRef, new = newRef\<rparr>] (pre @ ''[['' @ L @ ''|'' @ O' @ '']]'' @ post)
     = Some (pre @ ''[['' @ trimStart L @ ''|'' @ newRef @ '']]'' @ post)"
proof -
  from optgroup_labelled [OF assms(2,3,4)] obtain rest where
    "matchPieces (OptGroup [Star AnyChar, Lit CHR ''|''] # tailPattern oldRef)
       (L @ ''|'' @ O' @ '']]'' @ post) = (L @ ''|'' @ O' @ '']]'', [Some (L @ ''|'')], post) # rest"
    by blast
  from matchHere_renamePattern [OF this] have
    mh: "matchHere (renamePattern oldRef) (''[['' @ L @ ''|'' @ O' @ '']]'' @ post)
      = Some (''[['' @ L @ ''|'' @ O' @ '']]'', [Some (L @ ''|'')], post)" .
  show ?thesis
    unfolding replaceRefs_single [OF replaceAll_one_link(2) [OF assms(1,2) mh]]
      replaceAll_one_link(1) [OF assms(1,2) mh] replacer_simps trim_label
    by simp
qed

lemma replaceRefs_unlabelled_link:
  assumes "CHR ''['' \<notin> set pre" "CHR '']'' \<notin> set post"
    and "map canonicalize O' = map canonicalize oldRef"
  shows "replaceRefs [\<lparr>old = oldRef, new = newRef\<rparr>] (pre @ ''[['' @ O' @ '']]'' @ post)
     = Some (pre @ ''[['' @ newRef @ '']]'' @ post)"
proof -
  from matchHere_renamePattern [OF optgroup_unlabelled [OF assms(2,3)]] have
    mh: "matchHere (renamePattern oldRef) (''[['' @ O' @ '']]'' @ post)
      = Some (''[['' @ O' @ '']]'', [None], post)" .
  show ?thesis
    unfolding replaceRefs_single [OF replaceAll_one_link(2) [OF assms(1,2) mh]]
      replaceAll_one_link(1) [OF assms(1,2) mh] replacer_simps
    by simp
qed

subsection \<open>Escaping\<close>

text \<open>The escaped text of a reference is read back as the literal characters of the
  reference: the rename pattern matches \<open>ref.old\<close> literally.\<close>

lemma literalAtoms_escapeForRegExp: "literalAtoms (escapeForRegExp s) = Some (map Lit s)"
proof (induction s)
  case Nil
  show ?case by simp
next
  case (Cons c cs)
  show ?case
  proof (cases "syntaxCharacter c")
    case True
    with Cons show ?thesis by simp
  next
    case False
    then have "c \<noteq> CHR 0x5C" by (auto simp: syntaxCharacter_def)
    with False Cons show ?thesis
      by (cases "escapeForRegExp cs") simp_all
  qed
qed

section \<open>The rewrite engine: claims\<close>

lemma replaceRefs_fold_flag:
  "fst (foldl (replaceRefsStep content) acc refs) =
     (fst acc \<or> (\<exists>r \<in> set refs. regexExec (renamePattern (old r)) content \<noteq> None))"
  by (induction refs arbitrary: acc) (auto simp: replaceRefsStep_def)

text \<open>
  Claim C7. \<open>replaceRefs\<close> returns \<open>null\<close> exactly when the pattern of none of the
  supplied rename pairs matches anywhere in the content; as soon as the pattern of one
  pair matches, it returns a string.
\<close>

theorem replaceRefs_null_iff_no_match:
  "replaceRefs refs content = None \<longleftrightarrow>
     (\<forall>r \<in> set refs. regexExec (renamePattern (old r)) content = None)"
proof -
  obtain u n where f: "foldl (replaceRefsStep content) (False, content) refs = (u, n)"
    by (cases "foldl (replaceRefsStep content) (False, content) refs")
  have "u = (\<exists>r \<in> set refs. regexExec (renamePattern (old r)) content \<noteq> None)"
    using replaceRefs_fold_flag [of content "(False, content)" refs] f by simp
  then show ?thesis
    by (auto simp: replaceRefs_def f)
qed

theorem replaceRefs_null_iff_no_match_witness:
  "replaceRefs [\<lparr>old = ''a'', new = ''b''\<rparr>] ''[[c]]'' = None \<and>
   regexExec (renamePattern ''a'') ''[[c]]'' = None \<and>
   replaceRefs [\<lparr>old = ''a'', new = ''b''\<rparr>] ''[[a]]'' \<noteq> None \<and>
   regexExec (renamePattern ''a'') ''[[a]]'' \<noteq> None"
proof -
  have 1: "regexExec (renamePattern ''a'') ''[[c]]'' = None"
    by code_simp
  have 2: "regexExec (renamePattern ''a'') ''[[a]]'' \<noteq> None"
    by code_simp
  show ?thesis
    using replaceRefs_null_iff_no_match [of "[\<lparr>old = ''a'', new = ''b''\<rparr>]" "''[[c]]''"]
      replaceRefs_null_iff_no_match [of "[\<lparr>old = ''a'', new = ''b''\<rparr>]" "''[[a]]''"] 1 2
    by simp
qed

text \<open>
  Claim C1, at the content \<open>[[a]] [[b]]\<close> with the renames \<open>a\<close> to \<open>x\<close> and \<open>b\<close> to
  \<open>y\<close>: both pairs match, and the returned string has only the second one rewritten.
  Every step of the reduce rewrites the content that was passed in, not the content
  rewritten so far.
\<close>

theorem replaceRefs_two_pairs:
  "regexExec (renamePattern ''a'') ''[[a]] [[b]]'' \<noteq> None \<and>
   regexExec (renamePattern ''b'') ''[[a]] [[b]]'' \<noteq> None \<and>
   replaceRefs [\<lparr>old = ''a'', new = ''x''\<rparr>, \<lparr>old = ''b'', new = ''y''\<rparr>] ''[[a]] [[b]]''
     = Some ''[[a]] [[y]]''"
  by code_simp

text \<open>
  In general the returned string is the content that was passed in, rewritten for the
  last pair whose pattern matches it; the pairs before that one leave no trace.
\<close>

lemma replaceRefs_last_match:
  assumes "regexExec (renamePattern (old r)) content \<noteq> None"
    and "\<forall>q \<in> set after. regexExec (renamePattern (old q)) content = None"
  shows "replaceRefs (before @ r # after) content =
     Some (replaceAll (renamePattern (old r)) (replacer (new r)) content)"
proof -
  have skip: "foldl (replaceRefsStep content) acc after = acc" for acc
    using assms(2) by (induction after arbitrary: acc) (simp_all add: replaceRefsStep_def)
  show ?thesis
    using assms(1) by (simp add: replaceRefs_def skip) (simp add: replaceRefsStep_def)
qed

text \<open>
  Claim C4, as stated: a rename with \<open>old = new\<close> returns \<open>null\<close>. The content \<open>[[a]]\<close>
  with the rename of \<open>a\<close> to \<open>a\<close> returns a string, identical to the content.
\<close>

theorem replaceRefs_same_name_returns_string:
  "replaceRefs [\<lparr>old = ''a'', new = ''a''\<rparr>] ''[[a]]'' = Some ''[[a]]''"
  by code_simp

text \<open>
  Claim C4, amended. With \<open>old = new\<close> the link \<open>[[r]]\<close> is returned as a string equal to
  the content, and \<open>replaceRefs\<close> returns \<open>null\<close> only for a content in which the pattern
  of the pair matches nowhere.
\<close>

theorem replaceRefs_same_name:
  "replaceRefs [\<lparr>old = r, new = r\<rparr>] (''[['' @ r @ '']]'') = Some (''[['' @ r @ '']]'') \<and>
   (replaceRefs [\<lparr>old = r, new = r\<rparr>] content = None \<longleftrightarrow>
      regexExec (renamePattern r) content = None)"
proof -
  have "replaceRefs [\<lparr>old = r, new = r\<rparr>] ([] @ ''[['' @ r @ '']]'' @ []) = Some ([] @ ''[['' @ r @ '']]'' @ [])"
    by (rule replaceRefs_unlabelled_link) simp_all
  moreover have "replaceRefs [\<lparr>old = r, new = r\<rparr>] content = None \<longleftrightarrow>
      regexExec (renamePattern r) content = None"
    by (cases "regexExec (renamePattern r) content") (simp_all add: replaceRefs_def replaceRefsStep_def)
  ultimately show ?thesis by simp
qed

text \<open>
  Claim C5, at the content \<open>[[l|old]] + [[m|old]]\<close> with the rename of \<open>old\<close> to \<open>new\<close>.
  Each of the two links alone is rewritten with its label kept. With both on one line
  only the second one is rewritten: the label group \<open>(.*\|)\<close> is greedy and takes the
  text up to the last divider of the line for the label, so the one match of the global
  replace covers both links and the first link is copied with the label.
\<close>

theorem replaceRefs_two_links_on_a_line:
  "replaceRefs [\<lparr>old = ''old'', new = ''new''\<rparr>] ''[[l|old]]'' = Some ''[[l|new]]'' \<and>
   replaceRefs [\<lparr>old = ''old'', new = ''new''\<rparr>] ''[[m|old]]'' = Some ''[[m|new]]'' \<and>
   replaceRefs [\<lparr>old = ''old'', new = ''new''\<rparr>] ''[[l|old]] + [[m|old]]''
     = Some ''[[l|old]] + [[m|new]]''"
  by code_simp

lemma parseRef_divider:
  assumes "CHR ''|'' \<notin> set L"
  shows "parseRef (L @ ''|'' @ R) = \<lparr>ref = trim R, label = trim L\<rparr>"
proof -
  have "takeWhile (\<lambda>c. c \<noteq> CHR ''|'') (L @ ''|'' @ R) = L"
    using assms by (auto simp: takeWhile_tail takeWhile_eq_all_conv)
  moreover have "dropWhile (\<lambda>c. c \<noteq> CHR ''|'') (L @ ''|'' @ R) = ''|'' @ R"
    using assms by (induction L) auto
  ultimately show ?thesis by (simp add: parseRef_def)
qed

text \<open>
  Claim C8, as stated: the rewrite engine splits a token on its first divider, as
  \<open>parseRef\<close> does. For the token \<open>a|b|c\<close> the reference of \<open>parseRef\<close> is \<open>b|c\<close>; the
  rewrite engine, renaming \<open>c\<close>, takes \<open>c\<close> for the reference and \<open>a|b\<close> for the label.
\<close>

theorem rewrite_splits_at_last_divider:
  "parseRef ''a|b|c'' = \<lparr>ref = ''b|c'', label = ''a''\<rparr> \<and>
   replaceRefs [\<lparr>old = ''c'', new = ''z''\<rparr>] ''[[a|b|c]]'' = Some ''[[a|b|z]]''"
  by code_simp

text \<open>
  Claim C8, amended. \<open>parseRef\<close> splits a token once, on its first divider: the label is
  the trimmed text before it and the reference the trimmed text after it, and both are
  the trimmed token when there is no divider. The rewrite engine does not call
  \<open>parseRef\<close>. For a link \<open>[[L|R]]\<close> whose label \<open>L\<close> has no divider and no line
  terminator, the rename of \<open>R\<close> swaps the text after that same divider and keeps \<open>L\<close>
  without its leading whitespace.
\<close>

theorem parseRef_and_rewrite_single_divider:
  assumes "CHR ''|'' \<notin> set L" "\<forall>c \<in> set L. \<not> isLineTerminator c"
  shows "parseRef (L @ ''|'' @ R) = \<lparr>ref = trim R, label = trim L\<rparr> \<and>
     (CHR ''|'' \<notin> set T \<longrightarrow> parseRef T = \<lparr>ref = trim T, label = trim T\<rparr>) \<and>
     replaceRefs [\<lparr>old = R, new = newRef\<rparr>] (''[['' @ L @ ''|'' @ R @ '']]'')
       = Some (''[['' @ trimStart L @ ''|'' @ newRef @ '']]'')"
proof -
  have "replaceRefs [\<lparr>old = R, new = newRef\<rparr>] ([] @ ''[['' @ L @ ''|'' @ R @ '']]'' @ [])
       = Some ([] @ ''[['' @ trimStart L @ ''|'' @ newRef @ '']]'' @ [])"
    by (rule replaceRefs_labelled_link) (simp_all add: assms(2))
  then show ?thesis
    using parseRef_divider [OF assms(1), of R] by (simp add: parseRef_def)
qed

theorem parseRef_and_rewrite_single_divider_witness:
  "parseRef ''my label|note.one'' = \<lparr>ref = ''note.one'', label = ''my label''\<rparr> \<and>
   parseRef '' note.one '' = \<lparr>ref = ''note.one'', label = ''note.one''\<rparr> \<and>
   replaceRefs [\<lparr>old = ''note.one'', new = ''note.two''\<rparr>] ''[[my label|note.one]]''
     = Some ''[[my label|note.two]]''"
  using parseRef_and_rewrite_single_divider
    [of "''my label''" "''note.one''" "'' note.one ''" "''note.two''"]
  by (simp add: isLineTerminator_def trim_def trimStart_def trimEnd_def isWhiteSpace_def)

section \<open>The cross-reference cache: claims\<close>

subsection \<open>Scanning one text\<close>

lemma scanLines_total: "\<exists>occ. scanLines cache ls refs = Some occ"
proof (induction ls arbitrary: refs)
  case Nil
  show ?case by simp
next
  case (Cons l ls)
  obtain ms where "matchAll refPattern l = Some ms"
    using matchAll_refPattern_total by blast
  with Cons show ?case by simp
qed

lemma extractDanglingRefs_total: "\<exists>refs. extractDanglingRefs cache content = Some refs"
  using scanLines_total [of cache "splitLines content" "[]"]
  by (auto simp: extractDanglingRefs_def)

lemma arrayFromSet_snoc:
  "arrayFromSet (xs @ [x]) =
     (if x \<in> set (arrayFromSet xs) then arrayFromSet xs else arrayFromSet xs @ [x])"
  by (simp add: arrayFromSet_def)

lemma set_arrayFromSet: "set (arrayFromSet xs) = set xs"
  by (induction xs rule: rev_induct) (auto simp: arrayFromSet_snoc, simp add: arrayFromSet_def)

lemma distinct_arrayFromSet: "distinct (arrayFromSet xs)"
  by (induction xs rule: rev_induct) (auto simp: arrayFromSet_snoc, simp add: arrayFromSet_def)

lemma arrayFromSet_first_occurrence:
  "i < j \<Longrightarrow> j < length (arrayFromSet xs) \<Longrightarrow>
     \<exists>k < length xs. xs ! k = arrayFromSet xs ! i \<and> arrayFromSet xs ! j \<notin> set (take (Suc k) xs)"
proof (induction xs arbitrary: i j rule: rev_induct)
  case Nil
  then show ?case by (simp add: arrayFromSet_def)
next
  case (snoc x xs)
  let ?r = "arrayFromSet xs"
  show ?case
  proof (cases "x \<in> set ?r")
    case True
    then have eq: "arrayFromSet (xs @ [x]) = ?r" by (simp add: arrayFromSet_snoc)
    with snoc.prems have "j < length ?r" by simp
    from snoc.IH [OF snoc.prems(1) this] obtain k where
      k: "k < length xs" "xs ! k = ?r ! i" "?r ! j \<notin> set (take (Suc k) xs)" by blast
    then show ?thesis
      by (intro exI [of _ k]) (simp add: eq nth_append)
  next
    case False
    then have eq: "arrayFromSet (xs @ [x]) = ?r @ [x]" by (simp add: arrayFromSet_snoc)
    show ?thesis
    proof (cases "j < length ?r")
      case True
      from snoc.IH [OF snoc.prems(1) this] obtain k where
        k: "k < length xs" "xs ! k = ?r ! i" "?r ! j \<notin> set (take (Suc k) xs)" by blast
      with True snoc.prems(1) show ?thesis
        by (intro exI [of _ k]) (simp add: eq nth_append)
    next
      case F: False
      with snoc.prems eq have j: "j = length ?r" by simp
      with snoc.prems(1) have i: "i < length ?r" by simp
      then have "?r ! i \<in> set xs" using set_arrayFromSet [of xs] nth_mem by blast
      then obtain k where k: "k < length xs" "xs ! k = ?r ! i" by (auto simp: in_set_conv_nth)
      have "x \<notin> set xs" using False by (simp add: set_arrayFromSet)
      then have "x \<notin> set (take (Suc k) xs)" by (meson in_set_takeD)
      with k i j show ?thesis
        by (intro exI [of _ k]) (simp add: eq nth_append)
    qed
  qed
qed

subsection \<open>Links by their offsets\<close>

lemma linkAt_Suc: "linkAt (c # cs) (Suc i) = linkAt cs i"
  by (simp add: linkAt_def)

lemma linkAt_drop: "linkAt s i = linkAt (drop i s) 0"
  by (simp add: linkAt_def)

lemma linkTokens_Nil: "linkTokens [] = []"
  by (simp add: linkTokens_def)

lemma linkTokens_Cons:
  "linkTokens (c # cs) = (case linkAt (c # cs) 0 of Some t \<Rightarrow> [t] | None \<Rightarrow> []) @ linkTokens cs"
proof -
  have u: "[0..<length (c # cs)] = 0 # map Suc [0..<length cs]"
    by (simp add: upt_conv_Cons map_Suc_upt del: upt_Suc)
  show ?thesis
    unfolding linkTokens_def u
    by (simp add: filter_map comp_def linkAt_Suc split: option.splits)
qed

text \<open>A link at the start of a text, stated without the scan of the token.\<close>

lemma linkAt_Some_iff:
  "linkAt s 0 = Some t \<longleftrightarrow>
     t \<noteq> [] \<and> (\<forall>c \<in> set t. c \<noteq> CHR ''['' \<and> c \<noteq> CHR '']'' \<and> c \<noteq> CHR 0x0A) \<and>
     (\<exists>r. s = ''[['' @ t @ '']]'' @ r)"
proof
  let ?ok = "\<lambda>c. c \<noteq> CHR ''['' \<and> c \<noteq> CHR '']'' \<and> c \<noteq> CHR 0x0A"
  assume a: "linkAt s 0 = Some t"
  then have 1: "take 2 s = ''[[''" and t: "t = takeWhile ?ok (drop 2 s)" and ne: "t \<noteq> []"
    and 2: "take 2 (drop (2 + length t) s) = '']]''"
    by (auto simp: linkAt_def Let_def split: if_splits)
  have "s = take 2 s @ drop 2 s" by simp
  also have "drop 2 s = t @ drop (length t) (drop 2 s)"
    unfolding t by (metis takeWhile_dropWhile_id dropWhile_eq_drop)
  also have "drop (length t) (drop 2 s) = drop (2 + length t) s"
    by (simp add: add.commute)
  also have "drop (2 + length t) s = take 2 (drop (2 + length t) s) @ drop 2 (drop (2 + length t) s)"
    by (rule append_take_drop_id [symmetric])
  finally have "s = ''[['' @ t @ '']]'' @ drop 2 (drop (2 + length t) s)"
    unfolding 1 2 .
  moreover have "\<forall>c \<in> set t. ?ok c" unfolding t by (auto dest: set_takeWhileD)
  ultimately show "t \<noteq> [] \<and> (\<forall>c \<in> set t. ?ok c) \<and> (\<exists>r. s = ''[['' @ t @ '']]'' @ r)"
    using ne by blast
next
  let ?ok = "\<lambda>c. c \<noteq> CHR ''['' \<and> c \<noteq> CHR '']'' \<and> c \<noteq> CHR 0x0A"
  assume "t \<noteq> [] \<and> (\<forall>c \<in> set t. ?ok c) \<and> (\<exists>r. s = ''[['' @ t @ '']]'' @ r)"
  then obtain r where ne: "t \<noteq> []" and ok: "\<forall>c \<in> set t. ?ok c" and s: "s = ''[['' @ t @ '']]'' @ r"
    by blast
  have "takeWhile ?ok (t @ '']]'' @ r) = t"
    using ok by (simp add: takeWhile_tail)
  then show "linkAt s 0 = Some t"
    using ne by (simp add: linkAt_def s)
qed

text \<open>The same at any offset.\<close>

lemma linkAt_iff:
  "linkAt content i = Some t \<longleftrightarrow>
     t \<noteq> [] \<and> (\<forall>c \<in> set t. c \<noteq> CHR ''['' \<and> c \<noteq> CHR '']'' \<and> c \<noteq> CHR 0x0A) \<and>
     (\<exists>r. drop i content = ''[['' @ t @ '']]'' @ r)"
  unfolding linkAt_drop [of content i] by (rule linkAt_Some_iff)

lemma linkAt_not_open:
  "c \<noteq> CHR ''['' \<Longrightarrow> linkAt (c # cs) 0 = None"
  "CHR ''['' \<noteq> c \<Longrightarrow> linkAt (c # cs) 0 = None"
  by (auto simp: linkAt_def)

lemma linkTokens_no_open: "CHR ''['' \<notin> set u \<Longrightarrow> linkTokens (u @ r) = linkTokens r"
  by (induction u) (simp_all add: linkTokens_Cons linkAt_not_open)

text \<open>No link starts inside another one: after a link the next one starts behind it.\<close>

lemma linkTokens_skip:
  assumes "linkAt s 0 = Some t"
  shows "linkTokens s = t # linkTokens (drop (length t + 4) s)"
proof -
  from assms obtain r where ne: "t \<noteq> []"
    and ok: "\<forall>c \<in> set t. c \<noteq> CHR ''['' \<and> c \<noteq> CHR '']'' \<and> c \<noteq> CHR 0x0A"
    and s: "s = ''[['' @ t @ '']]'' @ r"
    unfolding linkAt_Some_iff by blast
  obtain d t' where t: "t = d # t'" using ne by (cases t) auto
  with ok have d: "d \<noteq> CHR ''[''" by simp
  have 1: "linkAt (CHR ''['' # t @ '']]'' @ r) 0 = None"
    using d by (simp add: linkAt_def t)
  have "CHR ''['' \<notin> set (t @ '']]'')" using ok by auto
  then have 2: "linkTokens ((t @ '']]'') @ r) = linkTokens r"
    by (rule linkTokens_no_open)
  have "s = (''[['' @ t @ '']]'') @ r" "length (''[['' @ t @ '']]'') = length t + 4"
    by (simp_all add: s)
  then have 3: "drop (length t + 4) s = r"
    by (metis append_eq_conv_conj)
  have "linkTokens s = t # linkTokens (CHR ''['' # (t @ '']]'') @ r)"
    using assms by (simp add: s linkTokens_Cons)
  also have "linkTokens (CHR ''['' # (t @ '']]'') @ r) = linkTokens ((t @ '']]'') @ r)"
    using 1 by (simp add: linkTokens_Cons)
  finally show ?thesis unfolding 2 3 .
qed

lemma linkTokens_nonempty: "t \<in> set (linkTokens s) \<Longrightarrow> t \<noteq> []"
proof -
  assume "t \<in> set (linkTokens s)"
  then obtain i where "linkAt s i = Some t"
    by (auto simp: linkTokens_def)
  then have "linkAt (drop i s) 0 = Some t" by (simp add: linkAt_drop [of s i])
  then show ?thesis unfolding linkAt_Some_iff by simp
qed

subsection \<open>Lines\<close>

text \<open>
  The first line of a text ends before the first line feed, or before the carriage
  return in front of it. A link does not reach over the end of a line, so the links of
  the lines, line after line, are the links of the text.
\<close>

lemma option_eq_by_Some: "(\<And>t. (a = Some t) = (b = Some t)) \<Longrightarrow> a = b"
  by (cases a; cases b) auto

lemma splitLines_first:
  "\<exists>l ls rest. splitLines s = l # ls \<and> s = l @ rest \<and> CHR 0x0A \<notin> set l \<and>
     (rest = [] \<or> (\<exists>r. rest = CHR 0x0A # r) \<or> (\<exists>r. rest = CHR 0x0D # CHR 0x0A # r))"
proof (induction s rule: splitLines.induct)
  case 1
  show ?case by simp
next
  case (2 c cs)
  show ?case
  proof (cases "c = CHR 0x0A")
    case True
    then show ?thesis by simp
  next
    case nl: False
    show ?thesis
    proof (cases "c = CHR 0x0D \<and> cs \<noteq> [] \<and> hd cs = CHR 0x0A")
      case True
      then obtain r where "cs = CHR 0x0A # r" by (cases cs) auto
      with True show ?thesis by simp
    next
      case False
      from 2(3) [OF nl False] obtain l ls rest where
        "splitLines cs = l # ls" "cs = l @ rest" "CHR 0x0A \<notin> set l"
        "rest = [] \<or> (\<exists>r. rest = CHR 0x0A # r) \<or> (\<exists>r. rest = CHR 0x0D # CHR 0x0A # r)"
        by blast
      with nl False show ?thesis by auto
    qed
  qed
qed

lemma splitLines_no_LF: "l \<in> set (splitLines s) \<Longrightarrow> CHR 0x0A \<notin> set l"
proof (induction s arbitrary: l rule: splitLines.induct)
  case 1
  then show ?case by simp
next
  case (2 c cs)
  show ?case
  proof (cases "c = CHR 0x0A")
    case True
    with 2 show ?thesis by auto
  next
    case nl: False
    show ?thesis
    proof (cases "c = CHR 0x0D \<and> cs \<noteq> [] \<and> hd cs = CHR 0x0A")
      case True
      with 2(2) [OF nl True] 2(4) nl show ?thesis by auto
    next
      case False
      with 2(3) [OF nl False] 2(4) nl show ?thesis
        by (auto split: list.splits)
    qed
  qed
qed

lemma link_chars:
  assumes "\<forall>c \<in> set t. c \<noteq> CHR ''['' \<and> c \<noteq> CHR '']'' \<and> c \<noteq> CHR 0x0A"
  shows "CHR 0x0A \<notin> set (''[['' @ t @ '']]'')" "last (''[['' @ t @ '']]'') = CHR '']''"
  using assms by auto

lemma linkAt_first_line: "linkAt (hd (splitLines s)) 0 = linkAt s 0"
proof (rule option_eq_by_Some)
  fix t
  from splitLines_first [of s] obtain l ls rest where
    sl: "splitLines s = l # ls" and s: "s = l @ rest" and l: "CHR 0x0A \<notin> set l"
    and rest: "rest = [] \<or> (\<exists>r. rest = CHR 0x0A # r) \<or> (\<exists>r. rest = CHR 0x0D # CHR 0x0A # r)"
    by blast
  let ?ok = "\<lambda>c. c \<noteq> CHR ''['' \<and> c \<noteq> CHR '']'' \<and> c \<noteq> CHR 0x0A"
  have "(\<exists>r. l = ''[['' @ t @ '']]'' @ r) = (\<exists>r. l @ rest = ''[['' @ t @ '']]'' @ r)"
    if ok: "\<forall>c \<in> set t. ?ok c"
  proof
    assume "\<exists>r. l = ''[['' @ t @ '']]'' @ r"
    then obtain r where "l = ''[['' @ t @ '']]'' @ r" by blast
    then have "l @ rest = ''[['' @ t @ '']]'' @ (r @ rest)" by simp
    then show "\<exists>r. l @ rest = ''[['' @ t @ '']]'' @ r" by blast
  next
    let ?k = "''[['' @ t @ '']]''"
    assume "\<exists>r. l @ rest = ''[['' @ t @ '']]'' @ r"
    then obtain r where "l @ rest = ?k @ r" by (metis append_assoc)
    then have "\<exists>us. l = ?k @ us \<and> us @ rest = r \<or> l @ us = ?k \<and> rest = us @ r"
      by (rule iffD1 [OF append_eq_append_conv2])
    then obtain us where "l = ?k @ us \<or> (l @ us = ?k \<and> rest = us @ r)" by blast
    then consider (a) vs where "l = ?k @ vs" | (b) "l @ us = ?k" "rest = us @ r" "us \<noteq> []"
      by (cases "us = []") auto
    then show "\<exists>r. l = ''[['' @ t @ '']]'' @ r"
    proof cases
      case a
      then have "l = ''[['' @ t @ '']]'' @ vs" by simp
      then show ?thesis ..
    next
      case b
      from link_chars [OF ok] have nolf: "CHR 0x0A \<notin> set ?k" and la: "last ?k = CHR '']''" by blast+
      from b(1) nolf have u1: "CHR 0x0A \<notin> set us" by (metis Un_iff set_append)
      from b(1,3) la have u2: "last us = CHR '']''" by (metis last_appendR)
      from rest b(2,3) u1 u2 have False
        by (cases us; cases "tl us") auto
      then show ?thesis ..
    qed
  qed
  then show "(linkAt (hd (splitLines s)) 0 = Some t) = (linkAt s 0 = Some t)"
    unfolding linkAt_Some_iff sl using s by auto
qed

lemma linkTokens_splitLines: "concat (map linkTokens (splitLines s)) = linkTokens s"
proof (induction s rule: splitLines.induct)
  case 1
  show ?case by (simp add: linkTokens_Nil)
next
  case (2 c cs)
  show ?case
  proof (cases "c = CHR 0x0A")
    case True
    with 2(1) show ?thesis by (simp add: linkTokens_Nil linkTokens_Cons linkAt_not_open)
  next
    case nl: False
    show ?thesis
    proof (cases "c = CHR 0x0D \<and> cs \<noteq> [] \<and> hd cs = CHR 0x0A")
      case True
      then obtain r where cs: "cs = CHR 0x0A # r" by (cases cs) auto
      with True 2(2) [OF nl True] show ?thesis
        by (simp add: linkTokens_Nil linkTokens_Cons linkAt_not_open)
    next
      case False
      obtain l ls where sl: "splitLines cs = l # ls"
        using splitLines_first [of cs] by blast
      have h: "hd (splitLines (c # cs)) = c # l" using nl False sl by simp
      have "linkAt (c # l) 0 = linkAt (c # cs) 0"
        using linkAt_first_line [of "c # cs"] unfolding h .
      moreover have "linkTokens l @ concat (map linkTokens ls) = linkTokens cs"
        using 2(3) [OF nl False] sl by simp
      ultimately show ?thesis
        using nl False sl by (auto simp: linkTokens_Cons)
    qed
  qed
qed

text \<open>
  A link of a line is a link of the text, and the links of a text are those of its top
  line, followed by those of the lines below it.
\<close>

lemma linkAt_line:
  assumes "CHR 0x0A \<notin> set l"
  shows "linkAt (l @ CHR 0x0A # rest) 0 = linkAt l 0"
proof (rule option_eq_by_Some)
  fix t
  have "(\<exists>r. l @ CHR 0x0A # rest = ''[['' @ t @ '']]'' @ r) = (\<exists>r. l = ''[['' @ t @ '']]'' @ r)"
    if ok: "\<forall>c \<in> set t. c \<noteq> CHR ''['' \<and> c \<noteq> CHR '']'' \<and> c \<noteq> CHR 0x0A"
  proof
    let ?k = "''[['' @ t @ '']]''"
    assume "\<exists>r. l @ CHR 0x0A # rest = ''[['' @ t @ '']]'' @ r"
    then obtain r where "l @ CHR 0x0A # rest = ?k @ r" by (metis append_assoc)
    then have "\<exists>us. l = ?k @ us \<and> us @ CHR 0x0A # rest = r \<or> l @ us = ?k \<and> CHR 0x0A # rest = us @ r"
      by (rule iffD1 [OF append_eq_append_conv2])
    then obtain us where "l = ?k @ us \<or> (l @ us = ?k \<and> CHR 0x0A # rest = us @ r)" by blast
    then consider (a) vs where "l = ?k @ vs" | (b) "l @ us = ?k" "CHR 0x0A # rest = us @ r" "us \<noteq> []"
      by (cases "us = []") auto
    then show "\<exists>r. l = ''[['' @ t @ '']]'' @ r"
    proof cases
      case a
      then have "l = ''[['' @ t @ '']]'' @ vs" by simp
      then show ?thesis ..
    next
      case b
      from link_chars(1) [OF ok] have nolf: "CHR 0x0A \<notin> set ?k" .
      from b(1) nolf have "CHR 0x0A \<notin> set us" by (metis Un_iff set_append)
      with b(2,3) have False by (cases us) auto
      then show ?thesis ..
    qed
  next
    assume "\<exists>r. l = ''[['' @ t @ '']]'' @ r"
    then obtain r where "l = ''[['' @ t @ '']]'' @ r" by blast
    then have "l @ CHR 0x0A # rest = ''[['' @ t @ '']]'' @ (r @ CHR 0x0A # rest)" by simp
    then show "\<exists>r. l @ CHR 0x0A # rest = ''[['' @ t @ '']]'' @ r" by blast
  qed
  then show "(linkAt (l @ CHR 0x0A # rest) 0 = Some t) = (linkAt l 0 = Some t)"
    unfolding linkAt_Some_iff by auto
qed

lemma linkTokens_lines:
  "CHR 0x0A \<notin> set l \<Longrightarrow> linkTokens (l @ CHR 0x0A # rest) = linkTokens l @ linkTokens rest"
proof (induction l)
  case Nil
  show ?case by (simp add: linkTokens_Cons linkTokens_Nil linkAt_not_open)
next
  case (Cons c l)
  then have l: "CHR 0x0A \<notin> set l" by simp
  have "linkAt ((c # l) @ CHR 0x0A # rest) 0 = linkAt (c # l) 0"
    by (rule linkAt_line [OF Cons.prems])
  then show ?case
    using Cons.IH [OF l] by (simp add: linkTokens_Cons)
qed

subsection \<open>The link pattern\<close>

text \<open>
  \<open>refPattern\<close> matches at the start of a line exactly when a link starts there: the
  lazy token stops at the first bracket, where the closing brackets have to follow.
\<close>

lemma canonicalize_bracket_iff:
  "(canonicalize CHR ''['' = canonicalize d) = (d = CHR ''['')"
  "(canonicalize CHR '']'' = canonicalize d) = (d = CHR '']'')"
  using canonicalize_open [of d] canonicalize_close [of d] by auto

lemma matchAtoms_brackets:
  "matchAtoms [Lit CHR ''['', Lit CHR ''[''] s = (if take 2 s = ''[['' then [(''[['', drop 2 s)] else [])"
  "matchAtoms [Lit CHR '']'', Lit CHR '']''] s = (if take 2 s = '']]'' then [('']]'', drop 2 s)] else [])"
  by (cases s; cases "tl s"; simp add: canonicalize_bracket_iff; fastforce)+

lemma starLazy_close:
  assumes "\<not> P CHR '']''"
  shows "concat (map (\<lambda>x. if take 2 (snd x) = '']]'' then [f (fst x) (snd x)] else []) (starLazy P s)) =
     (if take 2 (drop (length (takeWhile P s)) s) = '']]''
      then [f (takeWhile P s) (drop (length (takeWhile P s)) s)] else [])"
proof (induction s arbitrary: f)
  case Nil
  show ?case by simp
next
  case (Cons c cs)
  show ?case
  proof (cases "P c")
    case True
    with assms have c: "c \<noteq> CHR '']''" by auto
    let ?K = "\<lambda>x. if take 2 (snd x) = '']]'' then [f (fst x) (snd x)] else []"
    let ?K' = "\<lambda>x. if take 2 (snd x) = '']]'' then [f (c # fst x) (snd x)] else []"
    have 1: "map ?K (map (\<lambda>(m, r). (c # m, r)) (starLazy P cs)) = map ?K' (starLazy P cs)"
      by (simp add: case_prod_unfold comp_def)
    have "concat (map ?K (starLazy P (c # cs))) = concat (map ?K' (starLazy P cs))"
      using True c by (simp only: starLazy.simps if_True list.map 1) simp
    also have "\<dots> = (if take 2 (drop (length (takeWhile P cs)) cs) = '']]''
      then [f (c # takeWhile P cs) (drop (length (takeWhile P cs)) cs)] else [])"
      by (rule Cons)
    finally show ?thesis using True by simp
  next
    case False
    then show ?thesis using assms by auto
  qed
qed

lemma matchAtoms_single: "matchAtoms [a] s = matchAtom a s"
  by (simp add: case_prod_unfold concat_map_singleton)

lemma matchPieces_close_group:
  "matchPieces [Group [Lit CHR '']'', Lit CHR '']'']] r =
     (if take 2 r = '']]'' then [('']]'', [Some '']]''], drop 2 r)] else [])"
  unfolding matchPieces.simps matchAtoms_brackets by simp

lemma matchPieces_token:
  "matchPieces [Group [PlusLazy NoBracket], Group [Lit CHR '']'', Lit CHR '']'']] u =
     (let t = takeWhile (inClass NoBracket) u in
      if t \<noteq> [] \<and> take 2 (drop (length t) u) = '']]''
      then [(t @ '']]'', [Some t, Some '']]''], drop (length t + 2) u)] else [])"
proof (cases u)
  case Nil
  then show ?thesis by (simp add: matchAtoms_single del: matchAtoms.simps)
next
  case (Cons d ds)
  let ?nb = "inClass NoBracket"
  let ?G = "\<lambda>(m1, r1). map (\<lambda>(m2, caps, r2). (m1 @ m2, Some m1 # caps, r2))
              (matchPieces [Group [Lit CHR '']'', Lit CHR '']'']] r1)"
  have step: "matchPieces [Group [PlusLazy NoBracket], Group [Lit CHR '']'', Lit CHR '']'']] u
      = concat (map ?G (matchAtom (PlusLazy NoBracket) u))"
    by (simp only: matchPieces.simps matchAtoms_single)
  show ?thesis
  proof (cases "?nb d")
    case False
    then have "matchAtom (PlusLazy NoBracket) u = []" using Cons by auto
    then show ?thesis
      unfolding step using False Cons by auto
  next
    case True
    let ?f = "\<lambda>m r. ((d # m) @ '']]'', [Some (d # m), Some '']]''], drop 2 r)"
    let ?K = "\<lambda>x. if take 2 (snd x) = '']]'' then [?f (fst x) (snd x)] else []"
    have G: "map ?G (map (\<lambda>(m, r). (d # m, r)) (starLazy ?nb ds)) = map ?K (starLazy ?nb ds)"
      by (simp add: case_prod_unfold comp_def matchPieces_close_group del: matchPieces.simps)
    have ma: "matchAtom (PlusLazy NoBracket) u = map (\<lambda>(m, r). (d # m, r)) (starLazy ?nb ds)"
      using True Cons by simp
    have "matchPieces [Group [PlusLazy NoBracket], Group [Lit CHR '']'', Lit CHR '']'']] u
        = concat (map ?K (starLazy ?nb ds))"
      unfolding step ma G ..
    also have "\<dots> = (if take 2 (drop (length (takeWhile ?nb ds)) ds) = '']]''
        then [?f (takeWhile ?nb ds) (drop (length (takeWhile ?nb ds)) ds)] else [])"
      by (rule starLazy_close) simp
    finally have E: "matchPieces [Group [PlusLazy NoBracket], Group [Lit CHR '']'', Lit CHR '']'']] u
        = (if take 2 (drop (length (takeWhile ?nb ds)) ds) = '']]''
        then [?f (takeWhile ?nb ds) (drop (length (takeWhile ?nb ds)) ds)] else [])" .
    show ?thesis
      unfolding E using True Cons by (simp add: Let_def)
  qed
qed

lemma matchPieces_refPattern:
  "matchPieces refPattern s =
     (let t = takeWhile (inClass NoBracket) (drop 2 s) in
      if take 2 s = ''[['' \<and> t \<noteq> [] \<and> take 2 (drop (2 + length t) s) = '']]''
      then [(''[['' @ t @ '']]'', [Some ''[['', Some t, Some '']]''], drop (length t + 4) s)] else [])"
proof -
  have "matchPieces refPattern s =
      concat (map (\<lambda>(m1, r1). map (\<lambda>(m2, caps, r2). (m1 @ m2, Some m1 # caps, r2))
          (matchPieces [Group [PlusLazy NoBracket], Group [Lit CHR '']'', Lit CHR '']'']] r1))
        (matchAtoms [Lit CHR ''['', Lit CHR ''[''] s))"
    unfolding refPattern_def by (simp only: matchPieces.simps)
  then show ?thesis
    unfolding matchAtoms_brackets matchPieces_token
    by (simp add: Let_def eval_nat_numeral)
qed

lemma matchHere_refPattern:
  assumes "CHR 0x0A \<notin> set s"
  shows "matchHere refPattern s =
     map_option (\<lambda>t. (''[['' @ t @ '']]'', [Some ''[['', Some t, Some '']]''], drop (length t + 4) s))
       (linkAt s 0)"
proof -
  have "takeWhile (inClass NoBracket) (drop 2 s) =
      takeWhile (\<lambda>c. c \<noteq> CHR ''['' \<and> c \<noteq> CHR '']'' \<and> c \<noteq> CHR 0x0A) (drop 2 s)"
    using assms by (intro takeWhile_cong) (auto dest: in_set_dropD)
  then show ?thesis
    unfolding matchHere_def matchPieces_refPattern linkAt_def
    by (simp add: Let_def)
qed

text \<open>\<open>matchAll\<close> finds the links of a line, each once, from left to right.\<close>

lemma matchAllFrom_refPattern:
  "CHR 0x0A \<notin> set s \<Longrightarrow>
   matchAllFrom refPattern k s =
     Some (map (\<lambda>t. (''[['' @ t @ '']]'', [Some ''[['', Some t, Some '']]''])) (linkTokens (drop k s)))"
proof (induction s arbitrary: k)
  case Nil
  have "matchHere refPattern [] = None"
    by (simp add: matchHere_refPattern linkAt_def)
  then show ?case by (cases k) (simp_all add: linkTokens_Nil)
next
  case (Cons c cs)
  from Cons.prems have cs: "CHR 0x0A \<notin> set cs" by simp
  show ?case
  proof (cases k)
    case (Suc j)
    with Cons.IH [OF cs, of j] show ?thesis by simp
  next
    case 0
    show ?thesis
    proof (cases "linkAt (c # cs) 0")
      case None
      then have "matchHere refPattern (c # cs) = None"
        by (simp add: matchHere_refPattern [OF Cons.prems])
      with None 0 Cons.IH [OF cs, of 0] show ?thesis
        by (simp add: linkTokens_Cons)
    next
      case (Some t)
      let ?m = "''[['' @ t @ '']]''"
      have mh: "matchHere refPattern (c # cs) =
          Some (?m, [Some ''[['', Some t, Some '']]''], drop (length t + 4) (c # cs))"
        using Some by (simp add: matchHere_refPattern [OF Cons.prems])
      have l: "length ?m - 1 = length t + 3" by simp
      have "length t + 4 = Suc (length t + 3)" by simp
      then have d: "drop (length t + 4) (c # cs) = drop (length t + 3) cs"
        by (simp only: drop_Suc_Cons)
      have E: "matchAllFrom refPattern 0 (c # cs) =
          map_option (\<lambda>ms. (?m, [Some ''[['', Some t, Some '']]'']) # ms)
            (matchAllFrom refPattern (length t + 3) cs)"
        unfolding matchAllFrom.simps mh l by (simp add: eval_nat_numeral)
      have L: "linkTokens (drop 0 (c # cs)) = t # linkTokens (drop (length t + 3) cs)"
        using linkTokens_skip [OF Some] d by simp
      show ?thesis
        unfolding 0 E L Cons.IH [OF cs] by simp
    qed
  qed
qed

subsection \<open>The scan of a text\<close>

lemma ref_parseRef: "ref (parseRef t) = tokenRef t"
proof (cases "CHR ''|'' \<in> set t")
  case False
  then have "dropWhile (\<lambda>c. c \<noteq> CHR ''|'') t = []" by auto
  then have "tokenRef t = trim t" by (simp only: tokenRef_def list.case)
  moreover have "ref (parseRef t) = trim t" using False by (simp add: parseRef_def)
  ultimately show ?thesis by simp
next
  case True
  then have "dropWhile (\<lambda>c. c \<noteq> CHR ''|'') t \<noteq> []" by auto
  then obtain d r where d: "dropWhile (\<lambda>c. c \<noteq> CHR ''|'') t = d # r"
    by (cases "dropWhile (\<lambda>c. c \<noteq> CHR ''|'') t") auto
  then have "tokenRef t = trim r" by (simp only: tokenRef_def list.case)
  moreover have "ref (parseRef t) = trim r" using True by (simp add: parseRef_def d)
  ultimately show ?thesis by simp
qed

lemma pushDangling_link:
  "t \<noteq> [] \<Longrightarrow>
   pushDangling cache refs (''[['' @ t @ '']]'', [Some ''[['', Some t, Some '']]'']) =
     refs @ filter (\<lambda>r. findUriByRef (allUris cache) r = None) [tokenRef t]"
  by (simp add: pushDangling_def group_def ref_parseRef)

lemma foldl_pushDangling:
  "\<forall>t \<in> set ts. t \<noteq> [] \<Longrightarrow>
   foldl (pushDangling cache) refs
       (map (\<lambda>t. (''[['' @ t @ '']]'', [Some ''[['', Some t, Some '']]''])) ts) =
     refs @ filter (\<lambda>r. findUriByRef (allUris cache) r = None) (map tokenRef ts)"
proof (induction ts arbitrary: refs)
  case Nil
  show ?case by simp
next
  case (Cons t ts)
  then have t: "t \<noteq> []" and ts: "\<forall>t \<in> set ts. t \<noteq> []" by simp_all
  show ?case
    using Cons.IH [OF ts] by (simp add: pushDangling_link [OF t] del: append.simps)
qed

lemma scanLines_linkTokens:
  "\<forall>l \<in> set ls. CHR 0x0A \<notin> set l \<Longrightarrow>
   scanLines cache ls refs =
     Some (refs @ filter (\<lambda>r. findUriByRef (allUris cache) r = None)
        (map tokenRef (concat (map linkTokens ls))))"
proof (induction ls arbitrary: refs)
  case Nil
  show ?case by simp
next
  case (Cons l ls)
  then have l: "CHR 0x0A \<notin> set l" and ls: "\<forall>l \<in> set ls. CHR 0x0A \<notin> set l" by simp_all
  have m: "matchAll refPattern l =
      Some (map (\<lambda>t. (''[['' @ t @ '']]'', [Some ''[['', Some t, Some '']]''])) (linkTokens l))"
    unfolding matchAll_def using matchAllFrom_refPattern [OF l, of 0] by simp
  have f: "foldl (pushDangling cache) refs
       (map (\<lambda>t. (''[['' @ t @ '']]'', [Some ''[['', Some t, Some '']]''])) (linkTokens l)) =
     refs @ filter (\<lambda>r. findUriByRef (allUris cache) r = None) (map tokenRef (linkTokens l))"
    by (rule foldl_pushDangling) (simp add: linkTokens_nonempty)
  show ?case
    unfolding scanLines.simps m option.case f Cons.IH [OF ls] by simp
qed

text \<open>
  The array \<open>refs\<close> of \<open>extractDanglingRefs\<close>, after all lines have been scanned, holds
  the dangling references of the links of the content by increasing offset.
\<close>

lemma scanLines_content:
  "scanLines cache (splitLines content) [] = Some (danglingOccurrences cache content)"
proof -
  have "\<forall>l \<in> set (splitLines content). CHR 0x0A \<notin> set l"
    using splitLines_no_LF by blast
  from scanLines_linkTokens [OF this, of cache "[]"] show ?thesis
    by (simp add: danglingOccurrences_def linkTokens_splitLines)
qed

lemma extractDanglingRefs_content:
  "extractDanglingRefs cache content = Some (arrayFromSet (danglingOccurrences cache content))"
  by (simp add: extractDanglingRefs_def scanLines_content)

text \<open>
  Claim C10. \<open>extractDanglingRefs\<close> returns, and its list has no duplicates and is in
  the order of first occurrence in the content. The array \<open>refs\<close> of the scan is
  \<open>danglingOccurrences\<close>: the dangling references of the links of the content by
  increasing offset, that is from the top line to the bottom line and from left to right
  within a line. The result has the same elements, each once, and of two elements of the
  result the earlier one occurs among these occurrences before every occurrence of the
  later one.
\<close>

theorem extractDanglingRefs_first_occurrence_order:
  "\<exists>refs. scanLines cache (splitLines content) [] = Some (danglingOccurrences cache content) \<and>
      extractDanglingRefs cache content = Some refs \<and>
      distinct refs \<and> set refs = set (danglingOccurrences cache content) \<and>
      (\<forall>i j. i < j \<longrightarrow> j < length refs \<longrightarrow>
         (\<exists>k < length (danglingOccurrences cache content).
            danglingOccurrences cache content ! k = refs ! i \<and>
            refs ! j \<notin> set (take (Suc k) (danglingOccurrences cache content))))"
  using scanLines_content [of cache content] extractDanglingRefs_content [of cache content]
    distinct_arrayFromSet [of "danglingOccurrences cache content"]
    set_arrayFromSet [of "danglingOccurrences cache content"]
    arrayFromSet_first_occurrence [of _ _ "danglingOccurrences cache content"]
  by blast

theorem extractDanglingRefs_first_occurrence_order_witness:
  "danglingOccurrences (cacheUris vaultRoot stubVault workspaceCache)
       (''[[y]] [[x]] [[root]]'' @ [CHR 0x0A] @ ''[[z]] [[l|y]] [[x]]'')
     = [''y'', ''x'', ''z'', ''y'', ''x''] \<and>
   extractDanglingRefs (cacheUris vaultRoot stubVault workspaceCache)
       (''[[y]] [[x]] [[root]]'' @ [CHR 0x0A] @ ''[[z]] [[l|y]] [[x]]'')
     = Some [''y'', ''x'', ''z''] \<and>
   (\<exists>k < length [''y'', ''x'', ''z'', ''y'', ''x'']. [''y'', ''x'', ''z'', ''y'', ''x''] ! k = ''x'' \<and>
       ''z'' \<notin> set (take (Suc k) [''y'', ''x'', ''z'', ''y'', ''x'']))"
proof -
  let ?K = "cacheUris vaultRoot stubVault workspaceCache"
  let ?c = "''[[y]] [[x]] [[root]]'' @ [CHR 0x0A] @ ''[[z]] [[l|y]] [[x]]''"
  have o: "danglingOccurrences ?K ?c = [''y'', ''x'', ''z'', ''y'', ''x'']"
    by code_simp
  have r: "extractDanglingRefs ?K ?c = Some [''y'', ''x'', ''z'']"
    by code_simp
  from extractDanglingRefs_first_occurrence_order [of ?K ?c]
  obtain refs where
    1: "extractDanglingRefs ?K ?c = Some refs"
    and 2: "\<forall>i j. i < j \<longrightarrow> j < length refs \<longrightarrow>
         (\<exists>k < length (danglingOccurrences ?K ?c).
            danglingOccurrences ?K ?c ! k = refs ! i \<and>
            refs ! j \<notin> set (take (Suc k) (danglingOccurrences ?K ?c)))"
    by blast
  from 1 r have refs: "refs = [''y'', ''x'', ''z'']" by simp
  have "(1::nat) < 2" "2 < length refs" using refs by simp_all
  with 2 have "\<exists>k < length (danglingOccurrences ?K ?c).
            danglingOccurrences ?K ?c ! k = refs ! 1 \<and>
            refs ! 2 \<notin> set (take (Suc k) (danglingOccurrences ?K ?c))"
    by blast
  then have "\<exists>k < length [''y'', ''x'', ''z'', ''y'', ''x'']. [''y'', ''x'', ''z'', ''y'', ''x''] ! k = ''x'' \<and>
       ''z'' \<notin> set (take (Suc k) [''y'', ''x'', ''z'', ''y'', ''x''])"
    unfolding o refs by simp
  with o r show ?thesis by blast
qed

subsection \<open>Resolution of a reference\<close>

lemma basename_joinPath:
  assumes "CHR ''/'' \<notin> set f"
  shows "basename (fsPath (joinPath root (f @ ''.md''))) = f @ ''.md''"
proof -
  have "rev (fsPath (joinPath root (f @ ''.md''))) = rev (f @ ''.md'') @ CHR ''/'' # rev (fsPath root)"
    by (simp add: joinPath_def)
  moreover have "dropWhile (\<lambda>c. c = CHR ''/'') (rev (f @ ''.md'') @ CHR ''/'' # rev (fsPath root))
     = rev (f @ ''.md'') @ CHR ''/'' # rev (fsPath root)"
    by simp
  moreover have "takeWhile (\<lambda>c. c \<noteq> CHR ''/'') (rev (f @ ''.md'') @ CHR ''/'' # rev (fsPath root))
     = rev (f @ ''.md'')"
    using assms by (subst takeWhile_tail) (auto simp: takeWhile_eq_all_conv)
  ultimately show ?thesis
    unfolding basename_def by (simp del: rev_append rev.simps)
qed

lemma basename_idem_md:
  assumes "CHR ''/'' \<notin> set f"
  shows "basename (f @ ''.md'') = f @ ''.md''"
proof -
  have "takeWhile (\<lambda>c. c \<noteq> CHR ''/'') (rev f) = rev f"
    using assms by (auto simp: takeWhile_eq_all_conv)
  then have "takeWhile (\<lambda>c. c \<noteq> CHR ''/'') (dropWhile (\<lambda>c. c = CHR ''/'') (rev (f @ ''.md''))) = rev (f @ ''.md'')"
    by simp
  then show ?thesis
    unfolding basename_def by (simp del: rev_append rev.simps)
qed

lemma hasExt_md: "f \<noteq> [] \<Longrightarrow> hasExt (f @ ''.md'')"
  by (cases f rule: rev_cases) (auto simp: hasExt_def butlast_append)

lemma parse_md:
  assumes "basename p = f @ ''.md''" "f \<noteq> []"
  shows "parseExt p = ''.md''" "parseName p = f"
  using assms hasExt_md [of f] by (simp_all add: parseExt_def parseName_def)

lemma markdownExtRegex_md: "markdownExtRegex ''.md''"
  by (simp add: markdownExtRegex_def)

lemma findUriByRef_single:
  assumes "f \<noteq> []" "CHR ''/'' \<notin> set f"
  shows "findUriByRef [joinPath root (f @ ''.md'')] r = None \<longleftrightarrow> toLowerCase f \<noteq> toLowerCase r"
proof -
  let ?p = "fsPath (joinPath root (f @ ''.md''))"
  have b: "basename ?p = f @ ''.md''" using assms by (simp add: basename_joinPath)
  have "containsMarkdownExt (basename ?p)"
    using parse_md(1) [OF basename_idem_md [OF assms(2)] assms(1)] b
    by (simp add: containsMarkdownExt_def markdownExtRegex_md)
  moreover have "parseName ?p = f" using parse_md(2) [OF b assms(1)] .
  ultimately show ?thesis
    by (simp add: findUriByRef_def)
qed

lemma findUriByRef_None_iff:
  "findUriByRef uris r = None \<longleftrightarrow> (\<forall>u \<in> set uris. findUriByRef [u] r = None)"
  by (auto simp: findUriByRef_def find_None_iff Let_def)

lemma allUris_cacheUris:
  "set (allUris (cacheUris root ns cache)) =
     (\<lambda>n. joinPath root (fname n @ ''.md'')) ` {n \<in> set ns. \<not> stub n}"
  by (simp add: cacheUris_def sortPaths_def Let_def)

lemma cacheUris_known_iff:
  "findUriByRef (allUris (cacheUris root ns cache)) r = None \<longleftrightarrow>
     (\<forall>n \<in> set ns. stub n \<or> findUriByRef [joinPath root (fname n @ ''.md'')] r = None)"
  by (subst findUriByRef_None_iff) (auto simp: allUris_cacheUris)

lemma cacheUris_filter_stub:
  "cacheUris root (filter (\<lambda>n. \<not> stub n) ns) cache = cacheUris root ns cache"
  by (simp add: cacheUris_def)

text \<open>
  Claim C3, as stated: the reference \<open>ch1\<close> resolves against the note \<open>foo.ch1\<close>. It is
  dangling; the full name, in any case, resolves.
\<close>

theorem leaf_segment_is_dangling:
  "extractDanglingRefs (cacheUris vaultRoot stubVault workspaceCache) ''[[ch1]] [[FOO.CH1]]''
     = Some [''ch1'']"
  by code_simp

text \<open>
  Claim C3, amended. For notes with a non-empty name without a slash, a reference is
  dangling exactly when no note that is not a stub has that reference as its whole
  dot-delimited name, compared in lower case (the file name without \<open>.md\<close>).
\<close>

theorem dangling_iff_no_full_name_matches:
  assumes "\<forall>n \<in> set ns. fname n \<noteq> [] \<and> CHR ''/'' \<notin> set (fname n)"
  shows "findUriByRef (allUris (cacheUris root ns cache)) r = None \<longleftrightarrow>
     (\<forall>n \<in> set ns. \<not> stub n \<longrightarrow> toLowerCase (fname n) \<noteq> toLowerCase r)"
proof -
  have key: "(findUriByRef [joinPath root (fname n @ ''.md'')] r = None) =
      (toLowerCase (fname n) \<noteq> toLowerCase r)" if "n \<in> set ns" for n
    by (rule findUriByRef_single) (use that assms in simp_all)
  have "(\<forall>n \<in> set ns. stub n \<or> findUriByRef [joinPath root (fname n @ ''.md'')] r = None) =
      (\<forall>n \<in> set ns. stub n \<or> toLowerCase (fname n) \<noteq> toLowerCase r)"
    by (rule ball_cong) (simp_all add: key)
  then show ?thesis
    unfolding cacheUris_known_iff by auto
qed

theorem dangling_iff_no_full_name_matches_witness:
  "findUriByRef (allUris (cacheUris vaultRoot stubVault workspaceCache)) ''FOO.CH1'' \<noteq> None \<and>
   findUriByRef (allUris (cacheUris vaultRoot stubVault workspaceCache)) ''ch1'' = None \<and>
   toLowerCase ''foo.ch1'' = toLowerCase ''FOO.CH1'' \<and> toLowerCase ''foo.ch1'' \<noteq> toLowerCase ''ch1''"
proof -
  have h: "\<forall>n \<in> set stubVault. fname n \<noteq> [] \<and> CHR ''/'' \<notin> set (fname n)"
    by (simp add: stubVault_def)
  have a: "toLowerCase ''foo.ch1'' = toLowerCase ''FOO.CH1''"
    by (simp add: toLowerCase_def toLowerCaseChar_def)
  have b: "toLowerCase ''root'' \<noteq> toLowerCase ''ch1''" "toLowerCase ''foo.ch1'' \<noteq> toLowerCase ''ch1''"
    by (simp_all add: toLowerCase_def toLowerCaseChar_def)
  have "\<not> (\<forall>n \<in> set stubVault. \<not> stub n \<longrightarrow> toLowerCase (fname n) \<noteq> toLowerCase ''FOO.CH1'')"
    using a by (simp add: stubVault_def)
  moreover have "\<forall>n \<in> set stubVault. \<not> stub n \<longrightarrow> toLowerCase (fname n) \<noteq> toLowerCase ''ch1''"
    using b by (simp add: stubVault_def)
  ultimately show ?thesis
    using dangling_iff_no_full_name_matches [OF h, of vaultRoot workspaceCache "''FOO.CH1''"]
      dangling_iff_no_full_name_matches [OF h, of vaultRoot workspaceCache "''ch1''"] a b
    by simp
qed

subsection \<open>The loop over the files\<close>

lemma scannedText_total: "\<not> skipped env p \<Longrightarrow> \<exists>t. scannedText env p = Some t"
  by (cases "files env p"; cases "the (files env p)")
     (auto simp: skipped_def existsSync_def isDirectory_def scannedText_def readFileSync_def
           split: option.splits)

lemma findDanglingLoop_inv:
  "distinct (map fst acc) \<Longrightarrow>
   \<exists>m. findDanglingLoop env cache us acc = Some m \<and> distinct (map fst m) \<and>
     (\<forall>p. map_of m p = (if \<exists>u \<in> set us. fsPath u = p \<and> scanOf env cache p \<noteq> None
                           then scanOf env cache p else map_of acc p))"
proof (induction us arbitrary: acc)
  case Nil
  then show ?case by simp
next
  case (Cons u us)
  show ?case
  proof (cases "skipped env (fsPath u)")
    case True
    then have "scanOf env cache (fsPath u) = None" by (simp add: scanOf_def)
    with True Cons.IH [OF Cons.prems] show ?thesis
      by (auto cong: if_cong)
  next
    case False
    obtain t where t: "scannedText env (fsPath u) = Some t"
      using scannedText_total [OF False] by blast
    obtain refs where refs: "extractDanglingRefs cache t = Some refs"
      using extractDanglingRefs_total by blast
    show ?thesis
    proof (cases "refs = []")
      case True
      with False t refs have "scanOf env cache (fsPath u) = None" by (simp add: scanOf_def)
      with True False t refs Cons.IH [OF Cons.prems] show ?thesis
        by (auto cong: if_cong)
    next
      case ne: False
      with False t refs have s: "scanOf env cache (fsPath u) = Some refs" by (simp add: scanOf_def)
      let ?acc = "AList.update (fsPath u) refs acc"
      have d: "distinct (map fst ?acc)" using Cons.prems by (simp add: distinct_update)
      from Cons.IH [OF d] obtain m where m: "findDanglingLoop env cache us ?acc = Some m"
        "distinct (map fst m)"
        "\<And>p. map_of m p = (if \<exists>u \<in> set us. fsPath u = p \<and> scanOf env cache p \<noteq> None
                           then scanOf env cache p else map_of ?acc p)"
        by blast
      have "findDanglingLoop env cache (u # us) acc = Some m"
        using False t refs ne m(1) by simp
      moreover have "\<And>p. map_of m p = (if \<exists>v \<in> set (u # us). fsPath v = p \<and> scanOf env cache p \<noteq> None
                           then scanOf env cache p else map_of acc p)"
        using m(3) s by (auto simp: update_conv')
      ultimately show ?thesis using m(2) by blast
    qed
  qed
qed

lemma findDanglingRefsByFsPath_map:
  "\<exists>m. findDanglingRefsByFsPath env cache uris = Some m \<and> distinct (map fst m) \<and>
     (\<forall>p. map_of m p = (if \<exists>u \<in> set uris. fsPath u = p then scanOf env cache p else None))"
proof -
  from findDanglingLoop_inv [of "[]" env cache uris] obtain m where
    m: "findDanglingLoop env cache uris [] = Some m" "distinct (map fst m)"
      "\<And>p. map_of m p = (if \<exists>u \<in> set uris. fsPath u = p \<and> scanOf env cache p \<noteq> None
                           then scanOf env cache p else None)"
    by auto
  have "\<And>p. map_of m p = (if \<exists>u \<in> set uris. fsPath u = p then scanOf env cache p else None)"
    using m(3) by auto
  with m(1,2) show ?thesis by (auto simp: findDanglingRefsByFsPath_def)
qed

text \<open>
  Claim C9. \<open>findDanglingRefsByFsPath\<close> returns a dictionary whose keys are exactly
  the paths of the uris that are scanned (not skipped) and whose scanned text has at
  least one dangling reference; the value of a key is that non-empty list.
\<close>

theorem findDanglingRefsByFsPath_keys:
  "\<exists>m. findDanglingRefsByFsPath env cache uris = Some m \<and>
     distinct (map fst m) \<and>
     (\<forall>p. p \<in> fst ` set m \<longleftrightarrow>
        (\<exists>u \<in> set uris. fsPath u = p \<and> \<not> skipped env p \<and>
           (\<exists>t refs. scannedText env p = Some t \<and> extractDanglingRefs cache t = Some refs \<and> refs \<noteq> []))) \<and>
     (\<forall>p refs. (p, refs) \<in> set m \<longrightarrow>
        refs \<noteq> [] \<and> (\<exists>t. scannedText env p = Some t \<and> extractDanglingRefs cache t = Some refs))"
proof -
  from findDanglingRefsByFsPath_map [of env cache uris] obtain m where
    m: "findDanglingRefsByFsPath env cache uris = Some m" "distinct (map fst m)"
      "\<And>p. map_of m p = (if \<exists>u \<in> set uris. fsPath u = p then scanOf env cache p else None)"
    by blast
  have keys: "\<And>p. p \<in> fst ` set m \<longleftrightarrow> map_of m p \<noteq> None"
    by (simp add: map_of_eq_None_iff)
  have so: "\<And>p refs. scanOf env cache p = Some refs \<longleftrightarrow>
      (\<not> skipped env p \<and> refs \<noteq> [] \<and> (\<exists>t. scannedText env p = Some t \<and> extractDanglingRefs cache t = Some refs))"
    by (auto simp: scanOf_def split: option.splits if_splits)
  have 1: "\<And>p. p \<in> fst ` set m \<longleftrightarrow>
        (\<exists>u \<in> set uris. fsPath u = p \<and> \<not> skipped env p \<and>
           (\<exists>t refs. scannedText env p = Some t \<and> extractDanglingRefs cache t = Some refs \<and> refs \<noteq> []))"
    unfolding keys m(3) using so by (auto split: if_splits)
  have 2: "\<And>p refs. (p, refs) \<in> set m \<Longrightarrow>
        refs \<noteq> [] \<and> (\<exists>t. scannedText env p = Some t \<and> extractDanglingRefs cache t = Some refs)"
  proof -
    fix p refs assume "(p, refs) \<in> set m"
    with m(2) have "map_of m p = Some refs" by simp
    with m(3) [of p] have "scanOf env cache p = Some refs" by (auto split: if_splits)
    with so show "refs \<noteq> [] \<and> (\<exists>t. scannedText env p = Some t \<and> extractDanglingRefs cache t = Some refs)"
      by blast
  qed
  from m(1,2) 1 2 show ?thesis by blast
qed

theorem findDanglingRefsByFsPath_keys_witness:
  "\<exists>m. findDanglingRefsByFsPath stubVaultEnv workspaceCache
          [\<lparr>uriPath = ''/v/root.md'', fsPath = ''/v/root.md''\<rparr>,
           \<lparr>uriPath = ''/v/foo.ch1.md'', fsPath = ''/v/foo.ch1.md''\<rparr>] = Some m \<and>
        ''/v/root.md'' \<in> fst ` set m \<and> ''/v/foo.ch1.md'' \<notin> fst ` set m"
proof -
  let ?u1 = "\<lparr>uriPath = ''/v/root.md'', fsPath = ''/v/root.md''\<rparr>"
  let ?u2 = "\<lparr>uriPath = ''/v/foo.ch1.md'', fsPath = ''/v/foo.ch1.md''\<rparr>"
  let ?hit = "\<lambda>p. \<exists>u \<in> set [?u1, ?u2]. fsPath u = p \<and> \<not> skipped stubVaultEnv p \<and>
           (\<exists>t refs. scannedText stubVaultEnv p = Some t \<and>
              extractDanglingRefs workspaceCache t = Some refs \<and> refs \<noteq> [])"
  have s1: "\<not> skipped stubVaultEnv ''/v/root.md''" by code_simp
  have t1: "scannedText stubVaultEnv ''/v/root.md'' = Some ''see [[foo]]''" by code_simp
  have e1: "extractDanglingRefs workspaceCache ''see [[foo]]'' = Some [''foo'']" by code_simp
  have t2: "scannedText stubVaultEnv ''/v/foo.ch1.md'' = Some ''no links''" by code_simp
  have e2: "extractDanglingRefs workspaceCache ''no links'' = Some []" by code_simp
  from findDanglingRefsByFsPath_keys [of stubVaultEnv workspaceCache "[?u1, ?u2]"]
  obtain m where *: "findDanglingRefsByFsPath stubVaultEnv workspaceCache [?u1, ?u2] = Some m \<and>
     distinct (map fst m) \<and> (\<forall>p. p \<in> fst ` set m \<longleftrightarrow> ?hit p) \<and>
     (\<forall>p refs. (p, refs) \<in> set m \<longrightarrow>
        refs \<noteq> [] \<and> (\<exists>t. scannedText stubVaultEnv p = Some t \<and> extractDanglingRefs workspaceCache t = Some refs))"
    ..
  then have k: "\<And>p. p \<in> fst ` set m \<longleftrightarrow> ?hit p" by (elim conjE) (rule spec)
  have h: "?hit ''/v/root.md''"
  proof (rule bexI [of _ ?u1], intro conjI exI)
    show "scannedText stubVaultEnv ''/v/root.md'' = Some ''see [[foo]]''" by (rule t1)
    show "extractDanglingRefs workspaceCache ''see [[foo]]'' = Some [''foo'']" by (rule e1)
  qed (simp_all add: s1)
  have a: "''/v/root.md'' \<in> fst ` set m" unfolding k by (rule h)
  have nh: "\<not> ?hit ''/v/foo.ch1.md''"
  proof
    assume "?hit ''/v/foo.ch1.md''"
    then obtain t refs where "scannedText stubVaultEnv ''/v/foo.ch1.md'' = Some t"
      "extractDanglingRefs workspaceCache t = Some refs" "refs \<noteq> []" by blast
    with t2 e2 show False by simp
  qed
  have b: "''/v/foo.ch1.md'' \<notin> fst ` set m" unfolding k by (rule nh)
  from * a b show ?thesis by blast
qed

subsection \<open>The global list\<close>

lemma inj_shallowFirstKey: "inj_on shallowFirstKey S"
  by (simp add: inj_on_def shallowFirstKey_def)

lemma sortPaths_strings:
  "set (sortPaths (\<lambda>p. p) xs) = set xs"
  "distinct (sortPaths (\<lambda>p. p) xs) = distinct xs"
  "sorted (map shallowFirstKey (sortPaths (\<lambda>p. p) xs))"
  by (simp_all add: sortPaths_def sorted_sort_key)

lemma sortPaths_set_unique:
  assumes "distinct xs" "distinct ys" "set xs = set ys"
  shows "sortPaths (\<lambda>p. p) xs = sortPaths (\<lambda>p. p) ys"
proof (rule map_sorted_distinct_set_unique [where f = shallowFirstKey])
  show "inj_on shallowFirstKey (set (sortPaths (\<lambda>p. p) xs) \<union> set (sortPaths (\<lambda>p. p) ys))"
    by (rule inj_shallowFirstKey)
  show "distinct (map shallowFirstKey (sortPaths (\<lambda>p. p) xs))"
    using assms(1) by (simp add: distinct_map sortPaths_strings inj_shallowFirstKey)
  show "distinct (map shallowFirstKey (sortPaths (\<lambda>p. p) ys))"
    using assms(2) by (simp add: distinct_map sortPaths_strings inj_shallowFirstKey)
qed (simp_all add: sortPaths_strings assms)

lemma findDanglingRefsByFsPath_set_uris:
  assumes "set uris1 = set uris2"
    "findDanglingRefsByFsPath env cache uris1 = Some m1"
    "findDanglingRefsByFsPath env cache uris2 = Some m2"
  shows "set m1 = set m2"
proof -
  from findDanglingRefsByFsPath_map [of env cache uris1] assms(2) have
    1: "distinct (map fst m1)"
      "\<And>p. map_of m1 p = (if \<exists>u \<in> set uris1. fsPath u = p then scanOf env cache p else None)"
    by auto
  from findDanglingRefsByFsPath_map [of env cache uris2] assms(3) have
    2: "distinct (map fst m2)"
      "\<And>p. map_of m2 p = (if \<exists>u \<in> set uris2. fsPath u = p then scanOf env cache p else None)"
    by auto
  have "map_of m1 = map_of m2"
    using 1(2) 2(2) assms(1) by (intro ext) simp
  then have "\<And>p refs. (p, refs) \<in> set m1 \<longleftrightarrow> (p, refs) \<in> set m2"
    using 1(1) 2(1) by (metis map_of_eq_Some_iff)
  then show ?thesis by auto
qed

lemma pushDangling_allUris: "allUris k2 = allUris k1 \<Longrightarrow> pushDangling k2 = pushDangling k1"
  by (intro ext) (simp add: pushDangling_def split: option.splits)

lemma scanLines_allUris:
  assumes "allUris k2 = allUris k1"
  shows "scanLines k2 ls refs = scanLines k1 ls refs"
proof (induction ls arbitrary: refs)
  case Nil
  show ?case by simp
next
  case (Cons l ls)
  show ?case
    by (cases "matchAll refPattern l") (simp_all add: pushDangling_allUris [OF assms] Cons.IH)
qed

lemma extractDanglingRefs_allUris:
  "allUris k2 = allUris k1 \<Longrightarrow> extractDanglingRefs k2 t = extractDanglingRefs k1 t"
  unfolding extractDanglingRefs_def by (simp only: scanLines_allUris [of k2 k1])

lemma findDanglingLoop_allUris:
  assumes "allUris k2 = allUris k1"
  shows "findDanglingLoop env k2 us acc = findDanglingLoop env k1 us acc"
proof (induction us arbitrary: acc)
  case Nil
  show ?case by simp
next
  case (Cons u us)
  have e: "\<And>t. extractDanglingRefs k2 t = extractDanglingRefs k1 t"
    by (rule extractDanglingRefs_allUris [OF assms])
  show ?case
    by (simp add: e Cons.IH split: option.splits)
qed

lemma findDanglingRefsByFsPath_allUris:
  "allUris k2 = allUris k1 \<Longrightarrow>
     findDanglingRefsByFsPath env k2 us = findDanglingRefsByFsPath env k1 us"
  unfolding findDanglingRefsByFsPath_def by (rule findDanglingLoop_allUris)

lemma cacheRefs_Some:
  "findDanglingRefsByFsPath env cache (markdownUris cache) = Some m \<Longrightarrow>
   cacheRefs env cache =
     Some (cache\<lparr>danglingRefsByFsPath := m,
                 danglingRefs := sortPaths (\<lambda>p. p) (arrayFromSet (concat (map snd m)))\<rparr>)"
  by (simp add: cacheRefs_def)

text \<open>
  Claim C6, as stated: the global list is ordered by the path of the file a reference
  comes from. \<open>a.md\<close> holds \<open>zzz\<close> and \<open>b.md\<close> holds \<open>aaa\<close>; \<open>aaa\<close> comes first.
\<close>

theorem global_list_not_ordered_by_file:
  "map_option (\<lambda>c. (danglingRefsByFsPath c, danglingRefs c))
     (cacheWorkspace twoNotesEnv vaultRoot twoNotes workspaceCache)
   = Some ([(''/v/a.md'', [''zzz'']), (''/v/b.md'', [''aaa''])], [''aaa'', ''zzz''])"
  by code_simp

text \<open>
  Claim C6, amended. \<open>cacheRefs\<close> returns; its global list has the references of all
  lists of the dictionary, each once, sorted shallow-first and then lexically by the
  reference itself read as a path; and it is the same for every order of the same
  uris.
\<close>

theorem cacheRefs_danglingRefs_sorted_by_ref:
  assumes "set uris1 = set uris2"
  shows "\<exists>c1 c2.
     cacheRefs env (cache\<lparr>markdownUris := uris1\<rparr>) = Some c1 \<and>
     cacheRefs env (cache\<lparr>markdownUris := uris2\<rparr>) = Some c2 \<and>
     set (danglingRefs c1) = (\<Union>(p, refs) \<in> set (danglingRefsByFsPath c1). set refs) \<and>
     distinct (danglingRefs c1) \<and>
     sorted (map shallowFirstKey (danglingRefs c1)) \<and>
     danglingRefs c2 = danglingRefs c1"
proof -
  let ?k1 = "cache\<lparr>markdownUris := uris1\<rparr>" and ?k2 = "cache\<lparr>markdownUris := uris2\<rparr>"
  have ex: "\<And>k us. \<exists>m. findDanglingRefsByFsPath env k us = Some m"
    using findDanglingRefsByFsPath_map by blast
  obtain m1 where m1: "findDanglingRefsByFsPath env ?k1 uris1 = Some m1"
    using ex by blast
  obtain m2 where m2: "findDanglingRefsByFsPath env ?k2 uris2 = Some m2"
    using ex by blast
  have indep: "\<And>us. findDanglingRefsByFsPath env ?k2 us = findDanglingRefsByFsPath env ?k1 us"
    by (rule findDanglingRefsByFsPath_allUris) simp
  let ?d1 = "sortPaths (\<lambda>p. p) (arrayFromSet (concat (map snd m1)))"
  let ?d2 = "sortPaths (\<lambda>p. p) (arrayFromSet (concat (map snd m2)))"
  have c1: "cacheRefs env ?k1 = Some (?k1\<lparr>danglingRefsByFsPath := m1, danglingRefs := ?d1\<rparr>)"
    using cacheRefs_Some [of env ?k1 m1] m1 by simp
  have c2: "cacheRefs env ?k2 = Some (?k2\<lparr>danglingRefsByFsPath := m2, danglingRefs := ?d2\<rparr>)"
    using cacheRefs_Some [of env ?k2 m2] m2 by simp
  have "set m1 = set m2"
    using findDanglingRefsByFsPath_set_uris [OF assms m1] m2 indep by simp
  then have "set (concat (map snd m1)) = set (concat (map snd m2))"
    by simp
  then have eq: "?d2 = ?d1"
    by (intro sortPaths_set_unique) (simp_all add: distinct_arrayFromSet set_arrayFromSet)
  have s: "set ?d1 = (\<Union>(p, refs) \<in> set m1. set refs)"
    by (auto simp: sortPaths_strings set_arrayFromSet)
  have d: "distinct ?d1"
    by (simp add: sortPaths_strings distinct_arrayFromSet)
  have o: "sorted (map shallowFirstKey ?d1)"
    by (rule sortPaths_strings)
  show ?thesis
    using c1 c2 eq s d o by simp
qed

theorem cacheRefs_danglingRefs_sorted_by_ref_witness:
  "set [\<lparr>uriPath = ''/v/a.md'', fsPath = ''/v/a.md''\<rparr>, \<lparr>uriPath = ''/v/b.md'', fsPath = ''/v/b.md''\<rparr>]
     = set [\<lparr>uriPath = ''/v/b.md'', fsPath = ''/v/b.md''\<rparr>, \<lparr>uriPath = ''/v/a.md'', fsPath = ''/v/a.md''\<rparr>] \<and>
   map_option danglingRefs (cacheRefs twoNotesEnv (workspaceCache\<lparr>markdownUris :=
       [\<lparr>uriPath = ''/v/a.md'', fsPath = ''/v/a.md''\<rparr>, \<lparr>uriPath = ''/v/b.md'', fsPath = ''/v/b.md''\<rparr>]\<rparr>))
     = map_option danglingRefs (cacheRefs twoNotesEnv (workspaceCache\<lparr>markdownUris :=
       [\<lparr>uriPath = ''/v/b.md'', fsPath = ''/v/b.md''\<rparr>, \<lparr>uriPath = ''/v/a.md'', fsPath = ''/v/a.md''\<rparr>]\<rparr>))"
proof -
  let ?a = "\<lparr>uriPath = ''/v/a.md'', fsPath = ''/v/a.md''\<rparr>"
  let ?b = "\<lparr>uriPath = ''/v/b.md'', fsPath = ''/v/b.md''\<rparr>"
  have s: "set [?a, ?b] = set [?b, ?a]" by (rule set_eqI) (simp, blast)
  from cacheRefs_danglingRefs_sorted_by_ref [OF s, of twoNotesEnv workspaceCache]
  obtain c1 c2 where
    "cacheRefs twoNotesEnv (workspaceCache\<lparr>markdownUris := [?a, ?b]\<rparr>) = Some c1"
    "cacheRefs twoNotesEnv (workspaceCache\<lparr>markdownUris := [?b, ?a]\<rparr>) = Some c2"
    "danglingRefs c2 = danglingRefs c1"
    by blast
  then have "map_option danglingRefs (cacheRefs twoNotesEnv (workspaceCache\<lparr>markdownUris := [?a, ?b]\<rparr>))
     = map_option danglingRefs (cacheRefs twoNotesEnv (workspaceCache\<lparr>markdownUris := [?b, ?a]\<rparr>))"
    by simp
  with s show ?thesis by (rule conjI)
qed

subsection \<open>Stub notes\<close>

lemma markdownUris_cacheUris:
  "set (markdownUris (cacheUris root ns cache)) =
     (\<lambda>n. joinPath root (fname n @ ''.md'')) ` {n \<in> set ns. \<not> stub n}"
  by (simp add: cacheUris_def sortPaths_def Let_def)

lemma arrayFromSet_Nil_iff: "arrayFromSet xs = [] \<longleftrightarrow> xs = []"
  using set_arrayFromSet [of xs] by (metis set_empty)

lemma scanOf_text:
  assumes "\<not> skipped env p" "scannedText env p = Some text"
  shows "scanOf env cache p =
     (if danglingOccurrences cache text = [] then None
      else Some (arrayFromSet (danglingOccurrences cache text)))"
  using assms by (simp add: scanOf_def extractDanglingRefs_content arrayFromSet_Nil_iff)

lemma cacheRefs_lists:
  "\<exists>c. cacheRefs env cache = Some c \<and>
     distinct (map fst (danglingRefsByFsPath c)) \<and>
     (\<forall>p. map_of (danglingRefsByFsPath c) p =
        (if \<exists>u \<in> set (markdownUris cache). fsPath u = p then scanOf env cache p else None)) \<and>
     set (danglingRefs c) = (\<Union>(q, refs) \<in> set (danglingRefsByFsPath c). set refs)"
proof -
  from findDanglingRefsByFsPath_map [of env cache "markdownUris cache"] obtain m where
    m: "findDanglingRefsByFsPath env cache (markdownUris cache) = Some m" "distinct (map fst m)"
      "\<forall>p. map_of m p = (if \<exists>u \<in> set (markdownUris cache). fsPath u = p then scanOf env cache p else None)"
    by blast
  have "set (sortPaths (\<lambda>p. p) (arrayFromSet (concat (map snd m)))) = (\<Union>(q, refs) \<in> set m. set refs)"
    by (auto simp: sortPaths_strings set_arrayFromSet)
  with m show ?thesis
    by (simp add: cacheRefs_Some [OF m(1)])
qed

text \<open>
  Claim C2, as stated: a reference that matches a stub note is not dangling. In the
  vault with the notes \<open>root\<close>, the stub \<open>foo\<close> and \<open>foo.ch1\<close>, the link \<open>[[foo]]\<close> in
  \<open>root.md\<close> is in the dangling list of the file and in the global one.
\<close>

theorem stub_target_is_dangling:
  "map_option (\<lambda>c. (danglingRefsByFsPath c, danglingRefs c))
     (cacheWorkspace stubVaultEnv vaultRoot stubVault workspaceCache)
   = Some ([(''/v/root.md'', [''foo''])], [''foo''])"
  by code_simp

text \<open>
  Claim C2, amended. \<open>cacheUris\<close> drops the stub notes before the known uris are
  built: a reference resolves exactly when the uri of a note that is not a stub matches
  it, and the whole cache is the one of the vault without its stubs. Let \<open>p\<close> be the
  file of a note that is not a stub, scanned with the text \<open>text\<close>. Then a reference is
  in the dangling list of \<open>p\<close> exactly when it is the reference of a link of \<open>text\<close> and
  the uri of no note that is not a stub matches it, whatever stubs it matches; and the
  global list holds exactly the references of the lists of the files.
\<close>

theorem stubs_are_not_known_targets:
  assumes "n \<in> set ns" "\<not> stub n" "p = fsPath (joinPath root (fname n @ ''.md''))"
    and "\<not> skipped env p" "scannedText env p = Some text"
  shows "(findUriByRef (allUris (cacheUris root ns cache)) r = None \<longleftrightarrow>
        (\<forall>m \<in> set ns. stub m \<or> findUriByRef [joinPath root (fname m @ ''.md'')] r = None)) \<and>
     cacheWorkspace env root ns cache =
       cacheWorkspace env root (filter (\<lambda>n. \<not> stub n) ns) cache \<and>
     (\<exists>c. cacheWorkspace env root ns cache = Some c \<and>
        ((\<exists>refs. (p, refs) \<in> set (danglingRefsByFsPath c) \<and> r \<in> set refs) \<longleftrightarrow>
           (\<exists>t \<in> set (linkTokens text). tokenRef t = r) \<and>
           (\<forall>m \<in> set ns. stub m \<or> findUriByRef [joinPath root (fname m @ ''.md'')] r = None)) \<and>
        (r \<in> set (danglingRefs c) \<longleftrightarrow>
           (\<exists>q refs. (q, refs) \<in> set (danglingRefsByFsPath c) \<and> r \<in> set refs)))"
proof -
  let ?K = "cacheUris root ns cache"
  let ?occ = "danglingOccurrences ?K text"
  have known: "findUriByRef (allUris ?K) r = None \<longleftrightarrow>
      (\<forall>m \<in> set ns. stub m \<or> findUriByRef [joinPath root (fname m @ ''.md'')] r = None)"
    by (rule cacheUris_known_iff)
  have filt: "cacheWorkspace env root ns cache =
      cacheWorkspace env root (filter (\<lambda>n. \<not> stub n) ns) cache"
    by (simp add: cacheWorkspace_def cacheUris_filter_stub)
  from cacheRefs_lists [of env ?K] obtain c where
    c: "cacheRefs env ?K = Some c" and d: "distinct (map fst (danglingRefsByFsPath c))"
    and mp: "\<forall>q. map_of (danglingRefsByFsPath c) q =
        (if \<exists>u \<in> set (markdownUris ?K). fsPath u = q then scanOf env ?K q else None)"
    and g: "set (danglingRefs c) = (\<Union>(q, refs) \<in> set (danglingRefsByFsPath c). set refs)"
    by blast
  have "joinPath root (fname n @ ''.md'') \<in> set (markdownUris ?K)"
    using assms(1,2) by (auto simp: markdownUris_cacheUris)
  then have "\<exists>u \<in> set (markdownUris ?K). fsPath u = p"
    using assms(3) by blast
  with mp have "map_of (danglingRefsByFsPath c) p = scanOf env ?K p" by simp
  then have mo: "map_of (danglingRefsByFsPath c) p =
      (if ?occ = [] then None else Some (arrayFromSet ?occ))"
    by (simp only: scanOf_text [OF assms(4,5)])
  have perfile: "(\<exists>refs. (p, refs) \<in> set (danglingRefsByFsPath c) \<and> r \<in> set refs) \<longleftrightarrow> r \<in> set ?occ"
  proof
    assume "\<exists>refs. (p, refs) \<in> set (danglingRefsByFsPath c) \<and> r \<in> set refs"
    then obtain refs where "(p, refs) \<in> set (danglingRefsByFsPath c)" "r \<in> set refs" by blast
    with d have "map_of (danglingRefsByFsPath c) p = Some refs" by simp
    with mo have "refs = arrayFromSet ?occ" by (simp split: if_splits)
    with \<open>r \<in> set refs\<close> show "r \<in> set ?occ" by (simp add: set_arrayFromSet)
  next
    assume r: "r \<in> set ?occ"
    then have "?occ \<noteq> []" by auto
    with mo have "map_of (danglingRefsByFsPath c) p = Some (arrayFromSet ?occ)" by simp
    then have "(p, arrayFromSet ?occ) \<in> set (danglingRefsByFsPath c)" by (rule map_of_SomeD)
    moreover have "r \<in> set (arrayFromSet ?occ)" using r by (simp add: set_arrayFromSet)
    ultimately show "\<exists>refs. (p, refs) \<in> set (danglingRefsByFsPath c) \<and> r \<in> set refs" by blast
  qed
  have occ: "r \<in> set ?occ \<longleftrightarrow>
      (\<exists>t \<in> set (linkTokens text). tokenRef t = r) \<and> findUriByRef (allUris ?K) r = None"
    by (auto simp: danglingOccurrences_def)
  have glob: "r \<in> set (danglingRefs c) \<longleftrightarrow>
      (\<exists>q refs. (q, refs) \<in> set (danglingRefsByFsPath c) \<and> r \<in> set refs)"
    unfolding g by auto
  have cw: "cacheWorkspace env root ns cache = Some c"
    using c by (simp add: cacheWorkspace_def)
  have "(\<exists>refs. (p, refs) \<in> set (danglingRefsByFsPath c) \<and> r \<in> set refs) \<longleftrightarrow>
      (\<exists>t \<in> set (linkTokens text). tokenRef t = r) \<and> findUriByRef (allUris ?K) r = None"
    by (simp only: perfile occ)
  then have per: "(\<exists>refs. (p, refs) \<in> set (danglingRefsByFsPath c) \<and> r \<in> set refs) \<longleftrightarrow>
      (\<exists>t \<in> set (linkTokens text). tokenRef t = r) \<and>
      (\<forall>m \<in> set ns. stub m \<or> findUriByRef [joinPath root (fname m @ ''.md'')] r = None)"
    by (simp only: known)
  from cw per glob have "\<exists>c. cacheWorkspace env root ns cache = Some c \<and>
        ((\<exists>refs. (p, refs) \<in> set (danglingRefsByFsPath c) \<and> r \<in> set refs) \<longleftrightarrow>
           (\<exists>t \<in> set (linkTokens text). tokenRef t = r) \<and>
           (\<forall>m \<in> set ns. stub m \<or> findUriByRef [joinPath root (fname m @ ''.md'')] r = None)) \<and>
        (r \<in> set (danglingRefs c) \<longleftrightarrow>
           (\<exists>q refs. (q, refs) \<in> set (danglingRefsByFsPath c) \<and> r \<in> set refs))"
    by (intro exI [of _ c] conjI)
  with known filt show ?thesis
    by (intro conjI)
qed


theorem stubs_are_not_known_targets_witness:
  "\<lparr>fname = ''foo'', stub = True\<rparr> \<in> set stubVault \<and>
   scannedText stubVaultEnv ''/v/root.md'' = Some ''see [[foo]]'' \<and>
   linkTokens ''see [[foo]]'' = [''foo''] \<and>
   findUriByRef (allUris (cacheUris vaultRoot stubVault workspaceCache)) ''foo'' = None \<and>
   (\<exists>c. cacheWorkspace stubVaultEnv vaultRoot stubVault workspaceCache = Some c \<and>
      (\<exists>refs. (''/v/root.md'', refs) \<in> set (danglingRefsByFsPath c) \<and> ''foo'' \<in> set refs) \<and>
      ''foo'' \<in> set (danglingRefs c))"
proof -
  let ?n = "\<lparr>fname = ''root'', stub = False\<rparr>"
  have h1: "?n \<in> set stubVault" by (simp add: stubVault_def)
  have h2: "\<not> stub ?n" by simp
  have h3: "''/v/root.md'' = fsPath (joinPath vaultRoot (fname ?n @ ''.md''))"
    by (simp add: joinPath_def vaultRoot_def)
  have h4: "\<not> skipped stubVaultEnv ''/v/root.md''" by code_simp
  have h5: "scannedText stubVaultEnv ''/v/root.md'' = Some ''see [[foo]]''" by code_simp
  have lt: "linkTokens ''see [[foo]]'' = [''foo'']" by code_simp
  have pr: "tokenRef ''foo'' = ''foo''" by code_simp
  have 1: "findUriByRef [joinPath vaultRoot (''root'' @ ''.md'')] ''foo'' = None"
    by code_simp
  have 2: "findUriByRef [joinPath vaultRoot (''foo.ch1'' @ ''.md'')] ''foo'' = None"
    by code_simp
  have st: "\<lparr>fname = ''foo'', stub = True\<rparr> \<in> set stubVault" by (simp add: stubVault_def)
  have nm: "\<forall>m \<in> set stubVault. stub m \<or> findUriByRef [joinPath vaultRoot (fname m @ ''.md'')] ''foo'' = None"
    using 1 2 by (simp add: stubVault_def)
  have tk: "\<exists>t \<in> set (linkTokens ''see [[foo]]''). tokenRef t = ''foo''"
    by (simp add: lt pr)
  note T = stubs_are_not_known_targets [OF h1 h2 h3 h4 h5, of workspaceCache "''foo''"]
  from T have
    k: "findUriByRef (allUris (cacheUris vaultRoot stubVault workspaceCache)) ''foo'' = None \<longleftrightarrow>
        (\<forall>m \<in> set stubVault. stub m \<or> findUriByRef [joinPath vaultRoot (fname m @ ''.md'')] ''foo'' = None)"
    by (rule conjunct1)
  from T have "\<exists>c. cacheWorkspace stubVaultEnv vaultRoot stubVault workspaceCache = Some c \<and>
        ((\<exists>refs. (''/v/root.md'', refs) \<in> set (danglingRefsByFsPath c) \<and> ''foo'' \<in> set refs) \<longleftrightarrow>
           (\<exists>t \<in> set (linkTokens ''see [[foo]]''). tokenRef t = ''foo'') \<and>
           (\<forall>m \<in> set stubVault. stub m \<or> findUriByRef [joinPath vaultRoot (fname m @ ''.md'')] ''foo'' = None)) \<and>
        (''foo'' \<in> set (danglingRefs c) \<longleftrightarrow>
           (\<exists>q refs. (q, refs) \<in> set (danglingRefsByFsPath c) \<and> ''foo'' \<in> set refs))"
    by (rule conjunct2 [OF conjunct2])
  then obtain c where
    *: "cacheWorkspace stubVaultEnv vaultRoot stubVault workspaceCache = Some c \<and>
        ((\<exists>refs. (''/v/root.md'', refs) \<in> set (danglingRefsByFsPath c) \<and> ''foo'' \<in> set refs) \<longleftrightarrow>
           (\<exists>t \<in> set (linkTokens ''see [[foo]]''). tokenRef t = ''foo'') \<and>
           (\<forall>m \<in> set stubVault. stub m \<or> findUriByRef [joinPath vaultRoot (fname m @ ''.md'')] ''foo'' = None)) \<and>
        (''foo'' \<in> set (danglingRefs c) \<longleftrightarrow>
           (\<exists>q refs. (q, refs) \<in> set (danglingRefsByFsPath c) \<and> ''foo'' \<in> set refs))"
    ..
  from * have cw: "cacheWorkspace stubVaultEnv vaultRoot stubVault workspaceCache = Some c"
    by (rule conjunct1)
  from * have per: "(\<exists>refs. (''/v/root.md'', refs) \<in> set (danglingRefsByFsPath c) \<and> ''foo'' \<in> set refs) \<longleftrightarrow>
           (\<exists>t \<in> set (linkTokens ''see [[foo]]''). tokenRef t = ''foo'') \<and>
           (\<forall>m \<in> set stubVault. stub m \<or> findUriByRef [joinPath vaultRoot (fname m @ ''.md'')] ''foo'' = None)"
    by (rule conjunct1 [OF conjunct2])
  from * have glob: "''foo'' \<in> set (danglingRefs c) \<longleftrightarrow>
           (\<exists>q refs. (q, refs) \<in> set (danglingRefsByFsPath c) \<and> ''foo'' \<in> set refs)"
    by (rule conjunct2 [OF conjunct2])
  from k nm have a: "findUriByRef (allUris (cacheUris vaultRoot stubVault workspaceCache)) ''foo'' = None"
    by (rule iffD2)
  from per tk nm have b: "\<exists>refs. (''/v/root.md'', refs) \<in> set (danglingRefsByFsPath c) \<and> ''foo'' \<in> set refs"
    by (intro iffD2 [OF per] conjI)
  then have "\<exists>q refs. (q, refs) \<in> set (danglingRefsByFsPath c) \<and> ''foo'' \<in> set refs"
    by blast
  with glob have g: "''foo'' \<in> set (danglingRefs c)" by (rule iffD2)
  from cw b g have "\<exists>c. cacheWorkspace stubVaultEnv vaultRoot stubVault workspaceCache = Some c \<and>
      (\<exists>refs. (''/v/root.md'', refs) \<in> set (danglingRefsByFsPath c) \<and> ''foo'' \<in> set refs) \<and>
      ''foo'' \<in> set (danglingRefs c)"
    by (intro exI [of _ c] conjI)
  with st h5 lt a show ?thesis by (intro conjI)
qed

end
